theory Spec2Isabelle
  imports Complex_Main "HOL-Library.AList"
begin

section \<open>Python values and errors\<close>

text \<open>
  Every exception the modelled code can raise is a value of \<open>error\<close>; a function that can
  raise returns \<open>error + 'a\<close> with \<open>Inl\<close> for the exception. Python floats are
  idealised as \<open>real\<close> numbers, visit counts (which start at 0 and are only ever
  incremented) are \<open>nat\<close>, strings are byte strings.
\<close>

datatype error =
    AssertionError string
  | ValueError
  | AttributeError
  | IndexError
  | ZeroDivisionError
  | FileNotFoundError string

text \<open>An argument of a dynamically typed parameter: a \<open>str\<close>, or any other object.\<close>

datatype pyobj = PyStr string | PyOther

fun isinstance_str :: "pyobj \<Rightarrow> bool" where
  "isinstance_str (PyStr s) = True"
| "isinstance_str PyOther = False"

fun str_of :: "pyobj \<Rightarrow> string" where
  "str_of (PyStr s) = s"
| "str_of PyOther = []"

section \<open>adi.py: dataset loading\<close>

text \<open>
  \<open>re.findall(r'\d+', s)\<close>: the maximal runs of decimal digits of \<open>s\<close>, left to right.
  \<open>scan_digits cur s\<close> is the scanner with the run \<open>cur\<close> read so far.
\<close>

definition is_digit :: "char \<Rightarrow> bool" where
  "is_digit c = (c \<in> set ''0123456789'')"

fun scan_digits :: "string \<Rightarrow> string \<Rightarrow> string list" where
  "scan_digits cur [] = (if cur = [] then [] else [cur])"
| "scan_digits cur (c # cs) =
     (if is_digit c then scan_digits (cur @ [c]) cs
      else if cur = [] then scan_digits [] cs
      else cur # scan_digits [] cs)"

definition re_findall_digits :: "string \<Rightarrow> string list" where
  "re_findall_digits s = scan_digits [] s"

text \<open>\<open>int(digits)\<close> on a string of decimal digits.\<close>

definition digit_value :: "char \<Rightarrow> int" where
  "digit_value c = int (of_char c) - 48"

definition py_int :: "string \<Rightarrow> int" where
  "py_int ds = foldl (\<lambda>a c. 10 * a + digit_value c) 0 ds"

text \<open>\<open>os.path.sep\<close> on a POSIX system.\<close>

definition os_path_sep :: string where
  "os_path_sep = ''/''"

text \<open>
  \<open>ADI._load_dataset\<close> (adi.py, lines 80-96). \<open>np_load\<close> stands for \<open>numpy.load\<close>: it
  returns the array stored under a path or raises. The two log lines have no effect on
  the result and are left out.
\<close>

definition load_dataset ::
  "(string \<Rightarrow> error + 'arr) \<Rightarrow> pyobj list \<Rightarrow> error + (int \<times> int \<times> int \<times> 'arr \<times> 'arr)" where
  "load_dataset np_load load_files =
     (if \<not> (length load_files = 2 \<and> isinstance_str (load_files ! 0)
              \<and> isinstance_str (load_files ! 1))
      then Inl (AssertionError ''Bad format for load_files parameter'')
      else
        let numbers_parsed = re_findall_digits (str_of (load_files ! 0)) in
        if length numbers_parsed \<noteq> 4
        then Inl (AssertionError ''Dataset file name incorrect'')
        else
          (case map py_int numbers_parsed of
             [_, dim', k, l] \<Rightarrow>
               (case np_load (''data'' @ os_path_sep @ str_of (load_files ! 0)) of
                  Inl e \<Rightarrow> Inl e
                | Inr X \<Rightarrow>
                    (case np_load (''data'' @ os_path_sep @ str_of (load_files ! 1)) of
                       Inl e \<Rightarrow> Inl e
                     | Inr weights \<Rightarrow> Inr (dim', k, l, X, weights)))
           | _ \<Rightarrow> Inl ValueError))"

section \<open>adi.py: restoring a checkpoint\<close>

text \<open>
  What \<open>compile\<close> records on a Keras model: the optimizer (an \<open>Adam\<close> instance with its
  learning rate for a freshly designed model, a bare name resolved by Keras with its own
  defaults otherwise) and the loss of each output.
\<close>

datatype optimizer = Adam real | OptimizerName string

record 'net keras_model =
  net :: 'net
  optimizer :: optimizer
  loss :: "(string \<times> string) list"

text \<open>The attributes of an \<open>ADI\<close> instance that the modelled methods read or write.\<close>

record 'net adi =
  initial_lr :: real
  cube_dim :: nat
  model :: "'net keras_model"
  current_iteration :: int

definition losses :: "(string \<times> string) list" where
  "losses = [(''value_output'', ''mean_squared_error''),
             (''policy_output'', ''categorical_crossentropy'')]"

text \<open>
  \<open>ADI.load_trained_model\<close> (adi.py, lines 171-188). The file system \<open>fs\<close> maps a path to
  the contents of the file there; \<open>model_from_json\<close> and \<open>load_weights\<close> are the Keras
  functions of these names, which build a network from its description and install the
  stored weights in it, or raise.
\<close>

definition load_trained_model ::
  "(string \<rightharpoonup> string) \<Rightarrow> (string \<Rightarrow> error + 'net) \<Rightarrow> ('net \<Rightarrow> string \<Rightarrow> error + 'net) \<Rightarrow>
   'net adi \<Rightarrow> string \<Rightarrow> int \<Rightarrow> error + 'net adi" where
  "load_trained_model fs model_from_json load_weights self filename current_iteration' =
     (let model_name_json = ''data/'' @ filename @ ''.json'';
          model_name_h5 = ''data/'' @ filename @ ''.h5''
      in case fs model_name_json of
           None \<Rightarrow> Inl (FileNotFoundError model_name_json)
         | Some json_file \<Rightarrow>
             (case model_from_json json_file of
                Inl e \<Rightarrow> Inl e
              | Inr loaded_model \<Rightarrow>
                  (case fs model_name_h5 of
                     None \<Rightarrow> Inl (FileNotFoundError model_name_h5)
                   | Some h5_file \<Rightarrow>
                       (case load_weights loaded_model h5_file of
                          Inl e \<Rightarrow> Inl e
                        | Inr loaded_model' \<Rightarrow>
                            Inr (self\<lparr>model :=
                                        \<lparr>net = loaded_model',
                                         optimizer = OptimizerName ''rmsprop'',
                                         loss = losses\<rparr>,
                                      current_iteration := current_iteration'\<rparr>)))))"

section \<open>mcts.py: the search tree\<close>

text \<open>
  Nodes refer to each other in both directions (\<open>parent\<close>, \<open>children\<close>) and are updated
  in place, so the tree lives in a heap: a list of nodes in which a node's address is its
  index. A new node is allocated at the end. \<open>children\<close> is the dictionary from move to
  child, kept in insertion order as Python dictionaries are.
\<close>

record 'g UCTNode =
  game_state :: 'g
  is_expanded :: bool
  parent :: "nat option"
  children :: "(nat \<times> nat) list"
  prior :: real
  total_value :: real
  number_visits :: nat

type_synonym 'g heap = "'g UCTNode list"

text \<open>\<open>UCTNode.__init__\<close> (mcts.py, lines 6-13).\<close>

definition new_node :: "'g \<Rightarrow> nat option \<Rightarrow> real \<Rightarrow> 'g UCTNode" where
  "new_node game_state' parent' prior' =
     \<lparr>game_state = game_state', is_expanded = False, parent = parent', children = [],
      prior = prior', total_value = 0, number_visits = 0\<rparr>"

text \<open>\<open>UCTNode.Q\<close> and \<open>UCTNode.U\<close> (lines 15-20). \<open>U\<close> reads the parent's visit count:
  on a node without a parent it raises.\<close>

definition Q :: "'g heap \<Rightarrow> nat \<Rightarrow> real" where
  "Q h self = total_value (h ! self) / (1 + real (number_visits (h ! self)))"

definition U :: "'g heap \<Rightarrow> nat \<Rightarrow> error + real" where
  "U h self =
     (case parent (h ! self) of
        None \<Rightarrow> Inl AttributeError
      | Some p \<Rightarrow>
          Inr (sqrt (real (number_visits (h ! p))) * prior (h ! self)
               / (1 + real (number_visits (h ! self)))))"

text \<open>
  Python's \<open>max(iterable, key=...)\<close>: it raises \<open>ValueError\<close> on an empty iterable, and
  otherwise keeps the first item and replaces it only by an item with a strictly greater
  key, so that of several maximal items the first is returned.
\<close>

fun max_loop :: "('a \<Rightarrow> error + 'k::linorder) \<Rightarrow> 'a list \<Rightarrow> 'a \<Rightarrow> 'k \<Rightarrow> error + 'a" where
  "max_loop key [] maxitem maxval = Inr maxitem"
| "max_loop key (item # items) maxitem maxval =
     (case key item of
        Inl e \<Rightarrow> Inl e
      | Inr val \<Rightarrow>
          if val > maxval then max_loop key items item val
          else max_loop key items maxitem maxval)"

fun py_max :: "('a \<Rightarrow> error + 'k::linorder) \<Rightarrow> 'a list \<Rightarrow> error + 'a" where
  "py_max key [] = Inl ValueError"
| "py_max key (item # items) =
     (case key item of
        Inl e \<Rightarrow> Inl e
      | Inr val \<Rightarrow> max_loop key items item val)"

text \<open>The key of \<open>best_child\<close>: \<open>node.Q() + node.U()\<close>.\<close>

definition score :: "'g heap \<Rightarrow> nat \<Rightarrow> error + real" where
  "score h node = (case U h node of Inl e \<Rightarrow> Inl e | Inr u \<Rightarrow> Inr (Q h node + u))"

text \<open>\<open>UCTNode.best_child\<close> (lines 22-24).\<close>

definition best_child :: "'g heap \<Rightarrow> nat \<Rightarrow> error + nat" where
  "best_child h self = py_max (score h) (map snd (children (h ! self)))"

text \<open>Lines 29-30: the visit and the virtual loss that selection leaves on a node.\<close>

definition virtual_loss :: "nat \<Rightarrow> 'g heap \<Rightarrow> 'g heap" where
  "virtual_loss current h =
     h[current := (h ! current)
         \<lparr>number_visits := number_visits (h ! current) + 1,
          total_value := total_value (h ! current) - 1\<rparr>]"

text \<open>
  \<open>UCTNode.select_leaf\<close> (lines 26-32). The loop runs as long as it meets expanded
  nodes, so it is a partial function: \<open>None\<close> stands for a loop that never ends.
\<close>

partial_function (option) select_leaf :: "'g heap \<Rightarrow> nat \<Rightarrow> (error + 'g heap \<times> nat) option" where
  "select_leaf h current =
     (if is_expanded (h ! current)
      then (case best_child (virtual_loss current h) current of
              Inl e \<Rightarrow> Some (Inl e)
            | Inr c \<Rightarrow> select_leaf (virtual_loss current h) c)
      else Some (Inr (h, current)))"

text \<open>
  \<open>UCTNode.add_child\<close> (lines 39-41). \<open>play\<close> is the \<open>play\<close> method of the game state.
  The assignment \<open>self.children[move] = ...\<close> replaces the entry of a move that is
  already a key and appends a new entry otherwise.
\<close>

definition add_child :: "('g \<Rightarrow> nat \<Rightarrow> 'g) \<Rightarrow> nat \<Rightarrow> nat \<Rightarrow> real \<Rightarrow> 'g heap \<Rightarrow> 'g heap" where
  "add_child play self move prior' h =
     (let child = length h;
          h' = h @ [new_node (play (game_state (h ! self)) move) (Some self) prior']
      in h'[self := (h' ! self)\<lparr>children := AList.update move child (children (h' ! self))\<rparr>])"

text \<open>\<open>UCTNode.expand\<close> (lines 34-37).\<close>

definition expand :: "('g \<Rightarrow> nat \<Rightarrow> 'g) \<Rightarrow> nat \<Rightarrow> real list \<Rightarrow> 'g heap \<Rightarrow> 'g heap" where
  "expand play self child_priors h =
     fold (\<lambda>(move, prior'). add_child play self move prior') (enumerate 0 child_priors)
       (h[self := (h ! self)\<lparr>is_expanded := True\<rparr>])"

text \<open>\<open>UCTNode.backup\<close> (lines 43-47); \<open>None\<close> again stands for a loop that never ends.\<close>

partial_function (option) backup :: "'g heap \<Rightarrow> nat \<Rightarrow> real \<Rightarrow> 'g heap option" where
  "backup h current value_estimate =
     (case parent (h ! current) of
        None \<Rightarrow> Some h
      | Some p \<Rightarrow>
          backup (h[current := (h ! current)
                      \<lparr>total_value := total_value (h ! current) + (value_estimate + 1)\<rparr>])
            p value_estimate)"

text \<open>
  One pass of the loop of \<open>UCT_search\<close> (lines 53-56) on the root at address \<open>root'\<close>.
  \<open>evaluate i g\<close> is what the \<open>i\<close>-th call of \<open>NeuralNet.evaluate\<close> returns on game state
  \<open>g\<close>: the stub draws its result at random, so the result may differ from call to call.
\<close>

definition search_read ::
  "('g \<Rightarrow> nat \<Rightarrow> 'g) \<Rightarrow> (nat \<Rightarrow> 'g \<Rightarrow> real list \<times> real) \<Rightarrow> nat \<Rightarrow> nat \<Rightarrow> 'g heap \<Rightarrow>
   (error + 'g heap) option" where
  "search_read play evaluate i root' h =
     (case select_leaf h root' of
        None \<Rightarrow> None
      | Some (Inl e) \<Rightarrow> Some (Inl e)
      | Some (Inr (h1, leaf)) \<Rightarrow>
          (case evaluate i (game_state (h1 ! leaf)) of
             (child_priors, value_estimate) \<Rightarrow>
               (case backup (expand play leaf child_priors h1) leaf value_estimate of
                  None \<Rightarrow> None
                | Some h3 \<Rightarrow> Some (Inr h3))))"

text \<open>The heap after the first \<open>n\<close> passes of the loop; the root is allocated at address 0.\<close>

fun search_reads ::
  "('g \<Rightarrow> nat \<Rightarrow> 'g) \<Rightarrow> (nat \<Rightarrow> 'g \<Rightarrow> real list \<times> real) \<Rightarrow> 'g \<Rightarrow> nat \<Rightarrow> (error + 'g heap) option" where
  "search_reads play evaluate g 0 = Some (Inr [new_node g None 0])"
| "search_reads play evaluate g (Suc n) =
     (case search_reads play evaluate g n of
        None \<Rightarrow> None
      | Some (Inl e) \<Rightarrow> Some (Inl e)
      | Some (Inr h) \<Rightarrow> search_read play evaluate n 0 h)"

text \<open>
  \<open>UCT_search\<close> (lines 50-57). It returns the pair (move, child) of the root's
  dictionary; the child is an address, so the heap it points into is returned with it.
\<close>

definition UCT_search ::
  "('g \<Rightarrow> nat \<Rightarrow> 'g) \<Rightarrow> (nat \<Rightarrow> 'g \<Rightarrow> real list \<times> real) \<Rightarrow> 'g \<Rightarrow> nat \<Rightarrow>
   (error + (nat \<times> nat) \<times> 'g heap) option" where
  "UCT_search play evaluate g num_reads =
     (case search_reads play evaluate g num_reads of
        None \<Rightarrow> None
      | Some (Inl e) \<Rightarrow> Some (Inl e)
      | Some (Inr h) \<Rightarrow>
          (case py_max (\<lambda>item. Inr (number_visits (h ! snd item))) (children (h ! 0)) of
             Inl e \<Rightarrow> Some (Inl e)
           | Inr item \<Rightarrow> Some (Inr (item, h))))"

text \<open>\<open>GameState.play\<close> (lines 66-68): the stub returns a fresh, empty game state.\<close>

definition GameState_play :: "unit \<Rightarrow> nat \<Rightarrow> unit" where
  "GameState_play g move = ()"


section \<open>mcts.py: well-formed trees and what the claims speak about\<close>

text \<open>
  \<open>first_max key items y ky\<close>: \<open>y\<close> is the first item of \<open>items\<close> whose key \<open>ky\<close> is
  greatest; every key is defined.
\<close>

definition first_max :: "('a \<Rightarrow> error + 'k::linorder) \<Rightarrow> 'a list \<Rightarrow> 'a \<Rightarrow> 'k \<Rightarrow> bool" where
  "first_max key items y ky =
     (key y = Inr ky \<and>
      (\<exists>pre post. items = pre @ y # post
         \<and> (\<forall>x \<in> set pre. \<exists>kx. key x = Inr kx \<and> kx < ky)
         \<and> (\<forall>x \<in> set post. \<exists>kx. key x = Inr kx \<and> kx \<le> ky)))"

text \<open>
  A heap holds trees when every parent was allocated before its children, every entry of
  a \<open>children\<close> dictionary is a node of the heap whose \<open>parent\<close> points back, and no
  node is the child under two moves. \<open>populated\<close>: every expanded node has a child.
\<close>

definition tree_heap :: "'g heap \<Rightarrow> bool" where
  "tree_heap h =
     (\<forall>n < length h.
        (\<forall>p. parent (h ! n) = Some p \<longrightarrow> p < n)
        \<and> (\<forall>(m, c) \<in> set (children (h ! n)). n < c \<and> c < length h \<and> parent (h ! c) = Some n)
        \<and> distinct (map fst (children (h ! n)))
        \<and> distinct (map snd (children (h ! n))))"

definition populated :: "'g heap \<Rightarrow> bool" where
  "populated h = (\<forall>n < length h. is_expanded (h ! n) \<longrightarrow> children (h ! n) \<noteq> [])"

text \<open>
  \<open>selection_path h path\<close>: \<open>path\<close> is a descent of \<open>select_leaf\<close> in \<open>h\<close>. Every node
  but the last is expanded, and its successor is its child of greatest \<open>Q + U\<close> (the first
  such child) in the heap in which the nodes before it and itself carry their virtual
  loss; the last node is not expanded.
\<close>

fun selection_path :: "'g heap \<Rightarrow> nat list \<Rightarrow> bool" where
  "selection_path h [] = False"
| "selection_path h [leaf] = (\<not> is_expanded (h ! leaf))"
| "selection_path h (n # c # rest) =
     (is_expanded (h ! n)
      \<and> (\<exists>s. first_max (score (virtual_loss n h)) (map snd (children (h ! n))) c s)
      \<and> selection_path (virtual_loss n h) (c # rest))"

text \<open>
  The strict ancestors of a node, nearest first, and the nodes that \<open>backup\<close> from \<open>n\<close>
  passes with a parent: \<open>n\<close> and its ancestors, the root left out.
\<close>

function ancestors :: "'g heap \<Rightarrow> nat \<Rightarrow> nat list" where
  "ancestors h n =
     (case parent (h ! n) of
        None \<Rightarrow> []
      | Some p \<Rightarrow> if p < n then p # ancestors h p else [])"
  by pat_completeness auto
termination
  by (relation "measure snd") auto

declare ancestors.simps [simp del]

definition backup_nodes :: "'g heap \<Rightarrow> nat \<Rightarrow> nat list" where
  "backup_nodes h n = filter (\<lambda>i. parent (h ! i) \<noteq> None) (n # ancestors h n)"


text \<open>Line 46: what \<open>backup\<close> adds to the node it stands on.\<close>

definition add_value :: "real \<Rightarrow> nat \<Rightarrow> 'g heap \<Rightarrow> 'g heap" where
  "add_value v n h = h[n := (h ! n)\<lparr>total_value := total_value (h ! n) + (v + 1)\<rparr>]"


text \<open>The loop of \<open>expand\<close> (lines 36-37) from move \<open>m\<close> on.\<close>

fun expand_loop :: "('g \<Rightarrow> nat \<Rightarrow> 'g) \<Rightarrow> nat \<Rightarrow> nat \<Rightarrow> real list \<Rightarrow> 'g heap \<Rightarrow> 'g heap" where
  "expand_loop play self m [] h = h"
| "expand_loop play self m (p # ps) h = expand_loop play self (Suc m) ps (add_child play self m p h)"

text \<open>
  What holds of the heap between two passes of the loop of \<open>UCT_search\<close>: it holds
  trees, the root is the node at address 0, and a node that is not expanded has no
  children and no visits. \<open>read_effect h path ps h'\<close> describes one pass that selects
  along \<open>path\<close> and expands its last node with the priors \<open>ps\<close>, but for the cumulative
  value totals.
\<close>

definition search_inv :: "'g heap \<Rightarrow> bool" where
  "search_inv h =
     (tree_heap h \<and> 0 < length h \<and> parent (h ! 0) = None
      \<and> (\<forall>i < length h. \<not> is_expanded (h ! i) \<longrightarrow>
            children (h ! i) = [] \<and> number_visits (h ! i) = 0))"

definition read_effect ::
  "'g heap \<Rightarrow> nat list \<Rightarrow> real list \<Rightarrow> 'g heap \<Rightarrow> bool" where
  "read_effect h path ps h' =
     (length h' = length h + length ps
      \<and> (\<forall>j < length h.
            parent (h' ! j) = parent (h ! j)
            \<and> is_expanded (h' ! j) = (is_expanded (h ! j) \<or> j = last path)
            \<and> children (h' ! j) =
                (if j = last path then map (\<lambda>k. (k, length h + k)) [0..<length ps]
                 else children (h ! j))
            \<and> number_visits (h' ! j) =
                number_visits (h ! j) + (if j \<in> set (butlast path) then 1 else 0))
      \<and> (\<forall>k < length ps.
            parent (h' ! (length h + k)) = Some (last path)
            \<and> \<not> is_expanded (h' ! (length h + k))
            \<and> children (h' ! (length h + k)) = []
            \<and> number_visits (h' ! (length h + k)) = 0))"

text \<open>
  The sum of the visit counts of the children of a node, and the number of its children
  that are expanded.
\<close>

definition children_visits :: "'g heap \<Rightarrow> nat \<Rightarrow> nat" where
  "children_visits h n = (\<Sum>(m, c) \<leftarrow> children (h ! n). number_visits (h ! c))"

definition expanded_children :: "'g heap \<Rightarrow> nat \<Rightarrow> nat" where
  "expanded_children h n = length (filter (\<lambda>(m, c). is_expanded (h ! c)) (children (h ! n)))"


text \<open>
  The visits of the root are accounted for by its children: each child contributes its
  own visits, and one more when it is expanded.
\<close>

definition visits_accounted :: "'g heap \<Rightarrow> bool" where
  "visits_accounted h =
     (number_visits (h ! 0)
        = (\<Sum>(m, c) \<leftarrow> children (h ! 0).
             number_visits (h ! c) + (if is_expanded (h ! c) then 1 else 0)))"


section \<open>adi.py: target computation of the training loop\<close>

text \<open>
  The part of \<^verbatim>\<open>ADI.train\<close> that computes the regression and classification targets
  of one batch.  The cube environment and the network are parameters: \<open>step_from X_i action\<close>
  is \<^verbatim>\<open>RubiksCube(dim, cube=X_i).step(RubiksAction(action))\<close> reduced to the
  resulting state and the reward, \<open>predict_value\<close> is the value head of
  \<^verbatim>\<open>model.predict\<close>, which numpy applies row by row.  Arrays are lists,
  a matrix is a list of rows; \<^verbatim>\<open>np.max\<close> and \<^verbatim>\<open>np.argmax\<close> raise on an
  empty axis, \<^verbatim>\<open>reshape\<close> raises when the sizes do not agree.

  \<open>np_add\<close> is the sum \<^verbatim>\<open>rewards + values\<close> of line 239.  From an empty batch
  \<^verbatim>\<open>np.asarray(rewards)\<close> has the shape \<open>(0,)\<close> and \<^verbatim>\<open>values\<close> the shape
  \<open>(0, A)\<close>: numpy refuses to broadcast them when \<open>A > 1\<close>, and for \<open>A \<le> 1\<close> the
  reduction of line 239 runs over an empty axis; both raise \<^verbatim>\<open>ValueError\<close>.  From a
  batch that is not empty both operands have the shape \<open>(batch_size, A)\<close>.
\<close>

fun np_max :: "real list \<Rightarrow> error + real" where
  "np_max [] = Inl ValueError"
| "np_max (x # xs) = Inr (fold max xs x)"

fun argmax_loop :: "real list \<Rightarrow> nat \<Rightarrow> nat \<Rightarrow> real \<Rightarrow> nat" where
  "argmax_loop [] i best best_val = best"
| "argmax_loop (x # xs) i best best_val =
     (if x > best_val then argmax_loop xs (Suc i) i x
      else argmax_loop xs (Suc i) best best_val)"

fun np_argmax :: "real list \<Rightarrow> error + nat" where
  "np_argmax [] = Inl ValueError"
| "np_argmax (x # xs) = Inr (argmax_loop xs 1 0 x)"

definition np_eye_row :: "nat \<Rightarrow> nat \<Rightarrow> real list" where
  "np_eye_row n i = map (\<lambda>j. if j = i then 1 else 0) [0..<n]"

fun rows :: "nat \<Rightarrow> nat \<Rightarrow> 'a list \<Rightarrow> 'a list list" where
  "rows c 0 xs = []"
| "rows c (Suc r) xs = take c xs # rows c r (drop c xs)"

definition np_reshape :: "'a list \<Rightarrow> nat \<Rightarrow> nat \<Rightarrow> error + 'a list list" where
  "np_reshape xs r c = (if length xs = r * c then Inr (rows c r xs) else Inl ValueError)"

fun map_raising :: "('a \<Rightarrow> error + 'b) \<Rightarrow> 'a list \<Rightarrow> error + 'b list" where
  "map_raising f [] = Inr []"
| "map_raising f (x # xs) =
     (case f x of
        Inl e \<Rightarrow> Inl e
      | Inr y \<Rightarrow> (case map_raising f xs of Inl e \<Rightarrow> Inl e | Inr ys \<Rightarrow> Inr (y # ys)))"

definition np_add :: "real list list \<Rightarrow> real list list \<Rightarrow> error + real list list" where
  "np_add rewards values =
     (if rewards = [] then Inl ValueError else Inr (map2 (map2 (+)) rewards values))"

definition adi_targets ::
  "'a list \<Rightarrow> ('x \<Rightarrow> 'a \<Rightarrow> 'raw \<times> real) \<Rightarrow> ('raw \<Rightarrow> 'x) \<Rightarrow> ('x \<Rightarrow> real) \<Rightarrow> nat \<Rightarrow> 'x list \<Rightarrow>
   error + real list \<times> real list list" where
  "adi_targets actions step_from to_one_hot_cube predict_value batch_size X_batch =
     (let rewards = map (\<lambda>X_i. map (\<lambda>action. snd (step_from X_i action)) actions) X_batch;
          states = map (\<lambda>X_i. map (\<lambda>action. to_one_hot_cube (fst (step_from X_i action)))
                                 actions) X_batch;
          states' = concat states;
          values = map predict_value states'
      in case np_reshape values batch_size (length actions) of
           Inl e \<Rightarrow> Inl e
         | Inr values' \<Rightarrow>
             (case np_add rewards values' of
                Inl e \<Rightarrow> Inl e
              | Inr totals \<Rightarrow>
                  (case map_raising np_max totals of
                     Inl e \<Rightarrow> Inl e
                   | Inr Y_v \<Rightarrow>
                       (case map_raising np_argmax totals of
                          Inl e \<Rightarrow> Inl e
                        | Inr idx \<Rightarrow> Inr (Y_v, map (np_eye_row (length actions)) idx)))))"

definition target_total :: "('x \<Rightarrow> 'a \<Rightarrow> 'raw \<times> real) \<Rightarrow> ('raw \<Rightarrow> 'x) \<Rightarrow> ('x \<Rightarrow> real) \<Rightarrow> 'x \<Rightarrow> 'a \<Rightarrow> real" where
  "target_total step_from to_one_hot_cube predict_value X_i action =
     snd (step_from X_i action) + predict_value (to_one_hot_cube (fst (step_from X_i action)))"

definition first_argmax :: "real list \<Rightarrow> nat \<Rightarrow> bool" where
  "first_argmax ys j =
     (j < length ys \<and> (\<forall>m < length ys. ys ! m \<le> ys ! j) \<and> (\<forall>m < j. ys ! m < ys ! j))"


section \<open>adi.py: dataset generation and scrambling\<close>

text \<open>
  \<^verbatim>\<open>ADI._generate_dataset\<close> (lines 98-135) and the scrambling loop of
  \<^verbatim>\<open>ADI.estimate_naive_accuracy\<close> (lines 289-298).  The cube class is not part of
  these files; what the loops use of it is a record of parameters: the solved cube that
  \<^verbatim>\<open>RubiksCube(dim, shuffle=False)\<close> builds, the number of entries of its table
  \<^verbatim>\<open>actions\<close>, the effect of \<^verbatim>\<open>step\<close> with the action of a given index, the index
  that \<^verbatim>\<open>index_actions\<close> gives to the inverse of the action of a given index, and the
  one-hot view \<^verbatim>\<open>state_one_hot\<close> of a cube, a value read when it is appended.
\<close>

record ('c, 'x) cube_env =
  solved_cube :: 'c
  num_actions :: nat
  cube_step :: "'c \<Rightarrow> nat \<Rightarrow> 'c"
  inverse_action_idx :: "nat \<Rightarrow> nat"
  state_one_hot :: "'c \<Rightarrow> 'x"

text \<open>
  \<^verbatim>\<open>random.choice\<close> takes the element at a drawn position of its argument and raises
  \<^verbatim>\<open>IndexError\<close> on an empty sequence.  The draws of a run are a function \<open>rng\<close> from
  the number of the draw to a natural number, the position is that number modulo the
  length, and the state of the loops carries the number \<open>t\<close> of draws made so far.  Every
  run of the program is the run of some \<open>rng\<close>, and every \<open>rng\<close> is a possible run.
  \<open>candidates\<close> is the list comprehension of lines 114 and 293.

  Floats are idealised as reals: the weight \<^verbatim>\<open>1 / (shuffle + 1)\<close> is the quotient itself.
  Logging (lines 108 and 123-124) and the files written when \<^verbatim>\<open>save_dataset\<close> is set
  (lines 129-134) do not bear on the arrays that are returned and are left out; errors of
  the file system are not modelled.
\<close>

definition random_choice :: "(nat \<Rightarrow> nat) \<Rightarrow> nat \<Rightarrow> 'a list \<Rightarrow> error + 'a" where
  "random_choice rng t seq =
     (if seq = [] then Inl IndexError else Inr (seq ! (rng t mod length seq)))"

definition candidates :: "nat \<Rightarrow> nat option \<Rightarrow> nat list" where
  "candidates n inverse_previous_action_idx =
     filter (\<lambda>idx. Some idx \<noteq> inverse_previous_action_idx) [0..<n]"

fun gen_steps ::
  "('c, 'x) cube_env \<Rightarrow> (nat \<Rightarrow> nat) \<Rightarrow> nat list \<Rightarrow>
   'c \<times> nat option \<times> 'x list \<times> real list \<times> nat \<Rightarrow>
   error + 'c \<times> nat option \<times> 'x list \<times> real list \<times> nat" where
  "gen_steps env rng [] s = Inr s"
| "gen_steps env rng (shuffle # rest) (rubiks_cube, inverse_previous_action_idx, X, weights, t) =
     (case random_choice rng t (candidates (num_actions env) inverse_previous_action_idx) of
        Inl e \<Rightarrow> Inl e
      | Inr action_idx \<Rightarrow>
          (let rubiks_cube' = cube_step env rubiks_cube action_idx;
               inverse_previous_action_idx' = Some (inverse_action_idx env action_idx);
               weight = 1 / (real shuffle + 1)
           in gen_steps env rng rest
                (rubiks_cube', inverse_previous_action_idx',
                 X @ [state_one_hot env rubiks_cube'], weights @ [weight], Suc t)))"

fun gen_sequences ::
  "('c, 'x) cube_env \<Rightarrow> (nat \<Rightarrow> nat) \<Rightarrow> nat \<Rightarrow> nat list \<Rightarrow>
   'x list \<times> real list \<times> nat \<Rightarrow> error + 'x list \<times> real list \<times> nat" where
  "gen_sequences env rng k [] s = Inr s"
| "gen_sequences env rng k (iteration # rest) (X, weights, t) =
     (case gen_steps env rng [0..<k] (solved_cube env, None, X, weights, t) of
        Inl e \<Rightarrow> Inl e
      | Inr (rubiks_cube, inverse_previous_action_idx, X', weights', t') \<Rightarrow>
          gen_sequences env rng k rest (X', weights', t'))"

text \<open>
  \<open>np_take xs indexes\<close> is \<^verbatim>\<open>xs[indexes]\<close> for an array of indexes: \<^verbatim>\<open>IndexError\<close>
  when an index is out of bounds.  \<open>np_random_permutation n\<close> stands for
  \<^verbatim>\<open>np.random.permutation(range(n))\<close>, a parameter like the draws, and \<open>shuffle'\<close> for
  the attribute \<^verbatim>\<open>self.shuffle\<close>.  For \<open>n = 0\<close> the permutation is an empty array of
  floats, which numpy refuses as an index: an empty dataset that is to be shuffled raises
  \<^verbatim>\<open>IndexError\<close>.
\<close>

definition np_take :: "'a list \<Rightarrow> nat list \<Rightarrow> error + 'a list" where
  "np_take xs indexes =
     (if \<forall>i \<in> set indexes. i < length xs then Inr (map (\<lambda>i. xs ! i) indexes)
      else Inl IndexError)"

definition generate_dataset ::
  "('c, 'x) cube_env \<Rightarrow> (nat \<Rightarrow> nat) \<Rightarrow> (nat \<Rightarrow> nat list) \<Rightarrow> bool \<Rightarrow> nat \<Rightarrow> nat \<Rightarrow>
   error + 'x list \<times> real list" where
  "generate_dataset env rng np_random_permutation shuffle' k l =
     (case gen_sequences env rng k [0..<l] ([], [], 0) of
        Inl e \<Rightarrow> Inl e
      | Inr (X, weights, t) \<Rightarrow>
          if shuffle' then
            (if l * k = 0 then Inl IndexError
             else
               (let random_indexes = np_random_permutation (l * k) in
                case np_take X random_indexes of
                  Inl e \<Rightarrow> Inl e
                | Inr X' \<Rightarrow>
                    (case np_take weights random_indexes of
                       Inl e \<Rightarrow> Inl e
                     | Inr weights' \<Rightarrow> Inr (X', weights'))))
          else Inr (X, weights))"

text \<open>The scrambling loop of \<^verbatim>\<open>estimate_naive_accuracy\<close> (lines 292-298).\<close>

fun scramble_steps ::
  "('c, 'x) cube_env \<Rightarrow> (nat \<Rightarrow> nat) \<Rightarrow> nat list \<Rightarrow> 'c \<times> nat option \<times> nat \<Rightarrow>
   error + 'c \<times> nat option \<times> nat" where
  "scramble_steps env rng [] s = Inr s"
| "scramble_steps env rng (depth_i # rest) (rubiks, inverse_previous_action_idx, t) =
     (case random_choice rng t (candidates (num_actions env) inverse_previous_action_idx) of
        Inl e \<Rightarrow> Inl e
      | Inr action_idx \<Rightarrow>
          scramble_steps env rng rest
            (cube_step env rubiks action_idx, Some (inverse_action_idx env action_idx), Suc t))"

text \<open>
  What the claims about these loops speak about.
  \<open>scramble_moves n inv_idx rng t previous k\<close>: the indices of the \<open>k\<close> moves that a
  scrambling loop makes from draw \<open>t\<close> on, when \<open>previous\<close> is the index of the inverse of the
  move before; \<open>states_along\<close>: the cubes after each of the moves; \<open>inverse_of_last\<close>: the
  value of \<^verbatim>\<open>inverse_previous_action_idx\<close> after them; \<open>previous_at\<close>: its value before
  move \<open>j\<close>.  \<open>sequence_states env rng k t\<close>: the one-hot states recorded by the sequence whose
  first draw is draw \<open>t\<close>; sequence \<open>it\<close> of a dataset starts at draw \<open>it * k\<close>.
  \<open>source_index\<close>: the position before shuffling of the sample at position \<open>p\<close>.
\<close>

fun scramble_moves :: "nat \<Rightarrow> (nat \<Rightarrow> nat) \<Rightarrow> (nat \<Rightarrow> nat) \<Rightarrow> nat \<Rightarrow> nat option \<Rightarrow> nat \<Rightarrow> nat list" where
  "scramble_moves n inv_idx rng t previous 0 = []"
| "scramble_moves n inv_idx rng t previous (Suc k) =
     (let action_idx = candidates n previous ! (rng t mod length (candidates n previous))
      in action_idx # scramble_moves n inv_idx rng (Suc t) (Some (inv_idx action_idx)) k)"

fun states_along :: "('c \<Rightarrow> nat \<Rightarrow> 'c) \<Rightarrow> 'c \<Rightarrow> nat list \<Rightarrow> 'c list" where
  "states_along step c [] = []"
| "states_along step c (a # as) = step c a # states_along step (step c a) as"

definition inverse_of_last :: "(nat \<Rightarrow> nat) \<Rightarrow> nat option \<Rightarrow> nat list \<Rightarrow> nat option" where
  "inverse_of_last inv_idx previous moves =
     (if moves = [] then previous else Some (inv_idx (last moves)))"

definition sequence_states :: "('c, 'x) cube_env \<Rightarrow> (nat \<Rightarrow> nat) \<Rightarrow> nat \<Rightarrow> nat \<Rightarrow> 'x list" where
  "sequence_states env rng k t =
     map (state_one_hot env)
       (states_along (cube_step env) (solved_cube env)
          (scramble_moves (num_actions env) (inverse_action_idx env) rng t None k))"

definition source_index :: "bool \<Rightarrow> nat list \<Rightarrow> nat \<Rightarrow> nat" where
  "source_index shuffle' random_indexes p = (if shuffle' then random_indexes ! p else p)"

definition previous_at :: "(nat \<Rightarrow> nat) \<Rightarrow> nat option \<Rightarrow> nat list \<Rightarrow> nat \<Rightarrow> nat option" where
  "previous_at inv_idx previous moves j =
     (if j = 0 then previous else Some (inv_idx (moves ! (j - 1))))"


section \<open>Example data\<close>

definition example_tree :: "unit heap" where
  "example_tree =
     [\<lparr>game_state = (), is_expanded = True, parent = None, children = [(0, 1), (1, 2)],
       prior = 0, total_value = 0, number_visits = 0\<rparr>,
      \<lparr>game_state = (), is_expanded = True, parent = Some 0, children = [(0, 3)],
       prior = 1 / 2, total_value = 1, number_visits = 0\<rparr>,
      \<lparr>game_state = (), is_expanded = False, parent = Some 0, children = [],
       prior = 1 / 2, total_value = 0, number_visits = 0\<rparr>,
      \<lparr>game_state = (), is_expanded = False, parent = Some 1, children = [],
       prior = 1, total_value = 0, number_visits = 0\<rparr>]"



text \<open>
  \<open>example_tree\<close> after \<open>select_leaf\<close> from its root, and then after \<open>backup\<close> of the
  value 0 from the leaf that was selected.
\<close>

definition example_selected :: "unit heap" where
  "example_selected =
     [\<lparr>game_state = (), is_expanded = True, parent = None, children = [(0, 1), (1, 2)],
       prior = 0, total_value = - 1, number_visits = 1\<rparr>,
      \<lparr>game_state = (), is_expanded = True, parent = Some 0, children = [(0, 3)],
       prior = 1 / 2, total_value = 0, number_visits = 1\<rparr>,
      \<lparr>game_state = (), is_expanded = False, parent = Some 0, children = [],
       prior = 1 / 2, total_value = 0, number_visits = 0\<rparr>,
      \<lparr>game_state = (), is_expanded = False, parent = Some 1, children = [],
       prior = 1, total_value = 0, number_visits = 0\<rparr>]"

definition example_backed_up :: "unit heap" where
  "example_backed_up =
     [\<lparr>game_state = (), is_expanded = True, parent = None, children = [(0, 1), (1, 2)],
       prior = 0, total_value = - 1, number_visits = 1\<rparr>,
      \<lparr>game_state = (), is_expanded = True, parent = Some 0, children = [(0, 3)],
       prior = 1 / 2, total_value = 1, number_visits = 1\<rparr>,
      \<lparr>game_state = (), is_expanded = False, parent = Some 0, children = [],
       prior = 1 / 2, total_value = 0, number_visits = 0\<rparr>,
      \<lparr>game_state = (), is_expanded = False, parent = Some 1, children = [],
       prior = 1, total_value = 1, number_visits = 0\<rparr>]"

text \<open>
  A deterministic evaluator that returns the priors 0 and 0 and the value 0, and the heaps
  of \<open>UCT_search\<close> with it after one, two and three passes.
\<close>

definition example_evaluate :: "nat \<Rightarrow> unit \<Rightarrow> real list \<times> real" where
  "example_evaluate i g = ([0, 0], 0)"

definition example_reads1 :: "unit heap" where
  "example_reads1 =
     [\<lparr>game_state = (), is_expanded = True, parent = None, children = [(0, 1), (1, 2)],
       prior = 0, total_value = 0, number_visits = 0\<rparr>,
      \<lparr>game_state = (), is_expanded = False, parent = Some 0, children = [],
       prior = 0, total_value = 0, number_visits = 0\<rparr>,
      \<lparr>game_state = (), is_expanded = False, parent = Some 0, children = [],
       prior = 0, total_value = 0, number_visits = 0\<rparr>]"

definition example_reads2 :: "unit heap" where
  "example_reads2 =
     [\<lparr>game_state = (), is_expanded = True, parent = None, children = [(0, 1), (1, 2)],
       prior = 0, total_value = - 1, number_visits = 1\<rparr>,
      \<lparr>game_state = (), is_expanded = True, parent = Some 0, children = [(0, 3), (1, 4)],
       prior = 0, total_value = 1, number_visits = 0\<rparr>,
      \<lparr>game_state = (), is_expanded = False, parent = Some 0, children = [],
       prior = 0, total_value = 0, number_visits = 0\<rparr>,
      \<lparr>game_state = (), is_expanded = False, parent = Some 1, children = [],
       prior = 0, total_value = 0, number_visits = 0\<rparr>,
      \<lparr>game_state = (), is_expanded = False, parent = Some 1, children = [],
       prior = 0, total_value = 0, number_visits = 0\<rparr>]"

definition example_reads3 :: "unit heap" where
  "example_reads3 =
     [\<lparr>game_state = (), is_expanded = True, parent = None, children = [(0, 1), (1, 2)],
       prior = 0, total_value = - 2, number_visits = 2\<rparr>,
      \<lparr>game_state = (), is_expanded = True, parent = Some 0, children = [(0, 3), (1, 4)],
       prior = 0, total_value = 1, number_visits = 1\<rparr>,
      \<lparr>game_state = (), is_expanded = False, parent = Some 0, children = [],
       prior = 0, total_value = 0, number_visits = 0\<rparr>,
      \<lparr>game_state = (), is_expanded = True, parent = Some 1, children = [(0, 5), (1, 6)],
       prior = 0, total_value = 1, number_visits = 0\<rparr>,
      \<lparr>game_state = (), is_expanded = False, parent = Some 1, children = [],
       prior = 0, total_value = 0, number_visits = 0\<rparr>,
      \<lparr>game_state = (), is_expanded = False, parent = Some 3, children = [],
       prior = 0, total_value = 0, number_visits = 0\<rparr>,
      \<lparr>game_state = (), is_expanded = False, parent = Some 3, children = [],
       prior = 0, total_value = 0, number_visits = 0\<rparr>]"

definition example_step :: "nat \<Rightarrow> nat \<Rightarrow> nat \<times> real" where
  "example_step X action = (X + action, if action = 1 then 1 else - 1)"

definition example_predict :: "nat \<Rightarrow> real" where
  "example_predict x = (if x = 12 then 2 else 0)"

text \<open>
  A cube stand-in with four moves whose states are the lists of moves made, the moves 0, 1
  and 2, 3 being inverse to each other; draws and a permutation of six positions.
\<close>

definition example_env :: "(nat list, nat list) cube_env" where
  "example_env = \<lparr>solved_cube = [], num_actions = 4, cube_step = (\<lambda>c a. c @ [a]),
     inverse_action_idx = (\<lambda>a. if even a then a + 1 else a - 1), state_one_hot = (\<lambda>c. c)\<rparr>"

definition example_rng :: "nat \<Rightarrow> nat" where
  "example_rng t = 2 * t + 1"

definition example_permutation :: "nat \<Rightarrow> nat list" where
  "example_permutation n = [4, 2, 0, 5, 1, 3]"

definition example_adi :: "string adi" where
  "example_adi =
     \<lparr>initial_lr = 1 / 100000, cube_dim = 3,
      model = \<lparr>net = ''fresh'', optimizer = Adam (1 / 100000), loss = losses\<rparr>,
      current_iteration = 0\<rparr>"

definition example_fs :: "string \<rightharpoonup> string" where
  "example_fs =
     [''data/data/model_3x3_k25_l40000_iter10.json'' \<mapsto> ''architecture'',
      ''data/data/model_3x3_k25_l40000_iter10.h5'' \<mapsto> ''weights'']"

section \<open>Properties of dataset loading\<close>

lemma scan_digits_nondigit:
  "\<not> is_digit c \<Longrightarrow>
   scan_digits cur (a @ c # b) = scan_digits cur a @ scan_digits [] b"
  by (induction a arbitrary: cur) auto

lemma scan_digits_all_digits:
  "\<forall>c \<in> set ds. is_digit c \<Longrightarrow> scan_digits cur ds = (if cur @ ds = [] then [] else [cur @ ds])"
  by (induction ds arbitrary: cur) auto

text \<open>
  The two facts that fix \<open>re_findall_digits\<close>: a character that is no digit separates the
  matches on its two sides, and a non-empty string of digits is one match.
\<close>

lemma re_findall_digits_split:
  "\<not> is_digit c \<Longrightarrow>
   re_findall_digits (a @ c # b) = re_findall_digits a @ re_findall_digits b"
  by (simp add: re_findall_digits_def scan_digits_nondigit)

lemma re_findall_digits_run:
  "ds \<noteq> [] \<Longrightarrow> \<forall>c \<in> set ds. is_digit c \<Longrightarrow> re_findall_digits ds = [ds]"
  by (simp add: re_findall_digits_def scan_digits_all_digits)

lemma two_strings_iff:
  "(length load_files = 2 \<and> isinstance_str (load_files ! 0) \<and> isinstance_str (load_files ! 1))
   = (\<exists>f0 f1. load_files = [PyStr f0, PyStr f1])"
proof
  assume h: "length load_files = 2 \<and> isinstance_str (load_files ! 0)
             \<and> isinstance_str (load_files ! 1)"
  then obtain x y where xy: "load_files = [x, y]"
    by (cases load_files; cases "tl load_files") auto
  with h obtain f0 f1 where "x = PyStr f0" "y = PyStr f1"
    by (cases x; cases y) auto
  with xy show "\<exists>f0 f1. load_files = [PyStr f0, PyStr f1]" by blast
next
  assume "\<exists>f0 f1. load_files = [PyStr f0, PyStr f1]"
  then show "length load_files = 2 \<and> isinstance_str (load_files ! 0)
             \<and> isinstance_str (load_files ! 1)"
    by auto
qed

text \<open>
  C6. Dataset loading fails with the assertion error "Bad format for load_files
  parameter" whenever \<open>load_files\<close> is not exactly two strings, and with the assertion
  error "Dataset file name incorrect" whenever the first file name does not embed
  exactly four decimal integers. Otherwise no assertion fails: the first embedded integer
  is discarded, the other three are, in order, dimension, k and l, and they are returned
  with the two arrays that \<open>numpy.load\<close> reads under \<open>data/\<close> (an error of
  \<open>numpy.load\<close> is passed on unchanged).
\<close>

theorem load_dataset_spec:
  "(\<not> (\<exists>f0 f1. load_files = [PyStr f0, PyStr f1]) \<longrightarrow>
      load_dataset np_load load_files
        = Inl (AssertionError ''Bad format for load_files parameter''))
   \<and> (\<forall>f0 f1. load_files = [PyStr f0, PyStr f1] \<and> length (re_findall_digits f0) \<noteq> 4 \<longrightarrow>
      load_dataset np_load load_files = Inl (AssertionError ''Dataset file name incorrect''))
   \<and> (\<forall>f0 f1 n0 n1 n2 n3.
        load_files = [PyStr f0, PyStr f1] \<and> re_findall_digits f0 = [n0, n1, n2, n3] \<longrightarrow>
        load_dataset np_load load_files =
          (case np_load (''data/'' @ f0) of
             Inl e \<Rightarrow> Inl e
           | Inr X \<Rightarrow>
               (case np_load (''data/'' @ f1) of
                  Inl e \<Rightarrow> Inl e
                | Inr weights \<Rightarrow> Inr (py_int n1, py_int n2, py_int n3, X, weights))))"
proof (intro conjI allI impI)
  assume "\<not> (\<exists>f0 f1. load_files = [PyStr f0, PyStr f1])"
  then have "\<not> (length load_files = 2 \<and> isinstance_str (load_files ! 0)
                 \<and> isinstance_str (load_files ! 1))"
    by (simp only: two_strings_iff not_False_eq_True)
  then show "load_dataset np_load load_files
               = Inl (AssertionError ''Bad format for load_files parameter'')"
    by (simp add: load_dataset_def)
next
  fix f0 f1
  assume "load_files = [PyStr f0, PyStr f1] \<and> length (re_findall_digits f0) \<noteq> 4"
  then show "load_dataset np_load load_files
               = Inl (AssertionError ''Dataset file name incorrect'')"
    by (simp add: load_dataset_def)
next
  fix f0 f1 n0 n1 n2 n3
  assume "load_files = [PyStr f0, PyStr f1] \<and> re_findall_digits f0 = [n0, n1, n2, n3]"
  then show "load_dataset np_load load_files =
          (case np_load (''data/'' @ f0) of
             Inl e \<Rightarrow> Inl e
           | Inr X \<Rightarrow>
               (case np_load (''data/'' @ f1) of
                  Inl e \<Rightarrow> Inl e
                | Inr weights \<Rightarrow> Inr (py_int n1, py_int n2, py_int n3, X, weights)))"
    by (simp add: load_dataset_def os_path_sep_def split: sum.splits)
qed

lemma findall_example:
  "re_findall_digits ''scrambled_cubes_3x3_k25_l40000.npy'' = [''3'', ''3'', ''25'', ''40000'']"
  by (simp add: re_findall_digits_def is_digit_def)

lemma findall_three_numbers:
  "re_findall_digits ''scrambled_cubes_3_k25_l40000.npy'' = [''3'', ''25'', ''40000'']"
  by (simp add: re_findall_digits_def is_digit_def)

theorem load_dataset_spec_witness:
  "load_dataset (\<lambda>path. Inr path)
     [PyStr ''scrambled_cubes_3x3_k25_l40000.npy'', PyStr ''weights_3x3_k25_l40000.npy'']
     = Inr (3, 25, 40000, ''data/scrambled_cubes_3x3_k25_l40000.npy'',
            ''data/weights_3x3_k25_l40000.npy'')
   \<and> load_dataset (\<lambda>path. Inr path)
        [PyStr ''scrambled_cubes_3_k25_l40000.npy'', PyStr ''weights_3_k25_l40000.npy'']
     = Inl (AssertionError ''Dataset file name incorrect'')
   \<and> load_dataset (\<lambda>path. Inr path) [PyStr ''scrambled_cubes_3x3_k25_l40000.npy'', PyOther]
     = Inl (AssertionError ''Bad format for load_files parameter'')
   \<and> load_dataset (\<lambda>path. Inr path) [PyStr ''scrambled_cubes_3x3_k25_l40000.npy'']
     = Inl (AssertionError ''Bad format for load_files parameter'')"
  using
    load_dataset_spec [of "[PyStr ''scrambled_cubes_3x3_k25_l40000.npy'',
                            PyStr ''weights_3x3_k25_l40000.npy'']" "\<lambda>path. Inr path"]
    load_dataset_spec [of "[PyStr ''scrambled_cubes_3_k25_l40000.npy'',
                            PyStr ''weights_3_k25_l40000.npy'']" "\<lambda>path. Inr path"]
    load_dataset_spec [of "[PyStr ''scrambled_cubes_3x3_k25_l40000.npy'', PyOther]"
                          "\<lambda>path. Inr path"]
    load_dataset_spec [of "[PyStr ''scrambled_cubes_3x3_k25_l40000.npy'']" "\<lambda>path. Inr path"]
  by (simp add: findall_example findall_three_numbers py_int_def digit_value_def)

section \<open>Properties of checkpoint restoring\<close>

text \<open>
  C9. \<open>load_trained_model(filename, current_iteration)\<close> reads the architecture from
  \<open>data/<filename>.json\<close> and the weights from \<open>data/<filename>.h5\<close>, whatever root the
  file name already carries: a missing file at one of these two paths is the error, and
  when both are there and Keras accepts them the loaded network is compiled with the
  optimizer named \<open>rmsprop\<close>, mean squared error on the value output and categorical
  cross-entropy on the policy output, and \<open>current_iteration\<close> becomes the caller's value.
  Nothing else of the instance changes, and the compiled model is the same whatever the
  instance's initial learning rate is.
\<close>

theorem load_trained_model_spec:
  "(fs (''data/'' @ filename @ ''.json'') = None \<longrightarrow>
      load_trained_model fs model_from_json load_weights self filename it
        = Inl (FileNotFoundError (''data/'' @ filename @ ''.json'')))
   \<and> (\<forall>json_file loaded_model.
        fs (''data/'' @ filename @ ''.json'') = Some json_file
        \<and> model_from_json json_file = Inr loaded_model
        \<and> fs (''data/'' @ filename @ ''.h5'') = None \<longrightarrow>
        load_trained_model fs model_from_json load_weights self filename it
          = Inl (FileNotFoundError (''data/'' @ filename @ ''.h5'')))
   \<and> (\<forall>json_file loaded_model h5_file loaded_model'.
        fs (''data/'' @ filename @ ''.json'') = Some json_file
        \<and> model_from_json json_file = Inr loaded_model
        \<and> fs (''data/'' @ filename @ ''.h5'') = Some h5_file
        \<and> load_weights loaded_model h5_file = Inr loaded_model' \<longrightarrow>
        (\<forall>lr. load_trained_model fs model_from_json load_weights
                 (self\<lparr>initial_lr := lr\<rparr>) filename it
             = Inr (self\<lparr>initial_lr := lr,
                        model := \<lparr>net = loaded_model',
                                  optimizer = OptimizerName ''rmsprop'',
                                  loss = [(''value_output'', ''mean_squared_error''),
                                          (''policy_output'', ''categorical_crossentropy'')]\<rparr>,
                        current_iteration := it\<rparr>)))"
  by (simp add: load_trained_model_def losses_def)

theorem load_trained_model_spec_witness:
  "load_trained_model example_fs (\<lambda>j. Inr j) (\<lambda>m w. Inr (m @ '' with '' @ w))
     (example_adi\<lparr>initial_lr := 1 / 2\<rparr>) ''data/model_3x3_k25_l40000_iter10'' 10
   = Inr (example_adi\<lparr>initial_lr := 1 / 2,
            model := \<lparr>net = ''architecture with weights'',
                      optimizer = OptimizerName ''rmsprop'',
                      loss = [(''value_output'', ''mean_squared_error''),
                              (''policy_output'', ''categorical_crossentropy'')]\<rparr>,
            current_iteration := 10\<rparr>)
   \<and> load_trained_model example_fs (\<lambda>j. Inr j) (\<lambda>m w. Inr (m @ '' with '' @ w))
       example_adi ''model_3x3_k25_l40000_iter10'' 10
     = Inl (FileNotFoundError ''data/model_3x3_k25_l40000_iter10.json'')
   \<and> load_trained_model
       (example_fs(''data/data/model_3x3_k25_l40000_iter10.h5'' := None))
       (\<lambda>j. Inr j) (\<lambda>m w. Inr (m @ '' with '' @ w))
       example_adi ''data/model_3x3_k25_l40000_iter10'' 10
     = Inl (FileNotFoundError ''data/data/model_3x3_k25_l40000_iter10.h5'')"
  using
    load_trained_model_spec [of example_fs "''data/model_3x3_k25_l40000_iter10''"
      "\<lambda>j. Inr j" "\<lambda>m w. Inr (m @ '' with '' @ w)" example_adi 10]
    load_trained_model_spec [of example_fs "''model_3x3_k25_l40000_iter10''"
      "\<lambda>j. Inr j" "\<lambda>m w. Inr (m @ '' with '' @ w)" example_adi 10]
    load_trained_model_spec
      [of "example_fs(''data/data/model_3x3_k25_l40000_iter10.h5'' := None)"
      "''data/model_3x3_k25_l40000_iter10''"
      "\<lambda>j. Inr j" "\<lambda>m w. Inr (m @ '' with '' @ w)" example_adi 10]
  by (simp add: example_fs_def)

section \<open>Properties of the search tree\<close>

subsection \<open>max\<close>

lemma max_loop_first_max:
  "first_max key zs b kb \<Longrightarrow> \<forall>x \<in> set xs. \<exists>k. key x = Inr k \<Longrightarrow>
   \<exists>y ky. max_loop key xs b kb = Inr y \<and> first_max key (zs @ xs) y ky"
proof (induction xs arbitrary: zs b kb)
  case Nil
  then show ?case by auto
next
  case (Cons x xs)
  from Cons.prems(2) obtain kx where kx: "key x = Inr kx" by auto
  from Cons.prems(1) obtain pre post where
    zs: "zs = pre @ b # post" and kb: "key b = Inr kb"
    and pre: "\<forall>x \<in> set pre. \<exists>kx. key x = Inr kx \<and> kx < kb"
    and post: "\<forall>x \<in> set post. \<exists>kx. key x = Inr kx \<and> kx \<le> kb"
    unfolding first_max_def by blast
  have rest: "\<forall>x \<in> set xs. \<exists>k. key x = Inr k" using Cons.prems(2) by simp
  show ?case
  proof (cases "kx > kb")
    case True
    have "\<forall>y \<in> set zs. \<exists>ky. key y = Inr ky \<and> ky < kx"
      using zs kb pre post True by fastforce
    then have "first_max key (zs @ [x]) x kx"
      unfolding first_max_def using kx
      by (intro conjI, simp, rule_tac x = zs in exI, rule_tac x = "[]" in exI) simp
    from Cons.IH[OF this rest] show ?thesis using kx True by simp
  next
    case False
    have "\<forall>y \<in> set (post @ [x]). \<exists>ky. key y = Inr ky \<and> ky \<le> kb"
      using post kx False by auto
    then have "first_max key (zs @ [x]) b kb"
      unfolding first_max_def using kb zs pre
      by (intro conjI, simp, rule_tac x = pre in exI, rule_tac x = "post @ [x]" in exI) simp
    from Cons.IH[OF this rest] show ?thesis using kx False by simp
  qed
qed

lemma py_max_first_max:
  assumes "xs \<noteq> []" and "\<forall>x \<in> set xs. \<exists>k. key x = Inr k"
  shows "\<exists>y ky. py_max key xs = Inr y \<and> first_max key xs y ky"
proof -
  from assms(1) obtain b bs where xs: "xs = b # bs" by (cases xs) auto
  from assms(2) xs obtain kb where kb: "key b = Inr kb" by auto
  have "first_max key [b] b kb"
    unfolding first_max_def using kb
    by (intro conjI, simp, rule_tac x = "[]" in exI, rule_tac x = "[]" in exI) simp
  from max_loop_first_max[OF this, of bs] assms(2) xs kb show ?thesis by simp
qed

lemma first_max_mem: "first_max key xs y ky \<Longrightarrow> y \<in> set xs"
  unfolding first_max_def by auto

lemma first_max_greatest:
  "first_max key xs y ky \<Longrightarrow> x \<in> set xs \<Longrightarrow> \<exists>kx. key x = Inr kx \<and> kx \<le> ky"
  unfolding first_max_def by (fastforce simp: less_imp_le)


subsection \<open>virtual loss\<close>

lemma length_virtual_loss [simp]: "length (virtual_loss n h) = length h"
  by (simp add: virtual_loss_def)

lemma virtual_loss_nth:
  "i < length h \<Longrightarrow>
   virtual_loss n h ! i =
     (if i = n then (h ! i)\<lparr>number_visits := number_visits (h ! i) + 1,
                           total_value := total_value (h ! i) - 1\<rparr>
      else h ! i)"
  by (simp add: virtual_loss_def nth_list_update)

lemma virtual_loss_nth_beyond: "length h \<le> i \<Longrightarrow> virtual_loss n h ! i = h ! i"
  unfolding virtual_loss_def
  by (metis nth_list_update_neq list_update_beyond)

lemma virtual_loss_parent [simp]: "parent (virtual_loss n h ! i) = parent (h ! i)"
  by (cases "i < length h") (simp_all add: virtual_loss_nth virtual_loss_nth_beyond)

lemma virtual_loss_children [simp]: "children (virtual_loss n h ! i) = children (h ! i)"
  by (cases "i < length h") (simp_all add: virtual_loss_nth virtual_loss_nth_beyond)

lemma virtual_loss_is_expanded [simp]:
  "is_expanded (virtual_loss n h ! i) = is_expanded (h ! i)"
  by (cases "i < length h") (simp_all add: virtual_loss_nth virtual_loss_nth_beyond)

lemma virtual_loss_prior [simp]: "prior (virtual_loss n h ! i) = prior (h ! i)"
  by (cases "i < length h") (simp_all add: virtual_loss_nth virtual_loss_nth_beyond)

lemma virtual_loss_game_state [simp]: "game_state (virtual_loss n h ! i) = game_state (h ! i)"
  by (cases "i < length h") (simp_all add: virtual_loss_nth virtual_loss_nth_beyond)

lemma tree_heap_virtual_loss [simp]: "tree_heap (virtual_loss n h) = tree_heap h"
  by (simp add: tree_heap_def)

lemma populated_virtual_loss [simp]: "populated (virtual_loss n h) = populated h"
  by (simp add: populated_def)

lemma fold_virtual_loss_length [simp]: "length (fold virtual_loss xs h) = length h"
  by (induction xs arbitrary: h) auto

lemma fold_virtual_loss_nth:
  "distinct xs \<Longrightarrow> i < length h \<Longrightarrow>
   fold virtual_loss xs h ! i =
     (if i \<in> set xs then (h ! i)\<lparr>number_visits := number_visits (h ! i) + 1,
                                  total_value := total_value (h ! i) - 1\<rparr>
      else h ! i)"
proof (induction xs arbitrary: h)
  case Nil
  then show ?case by simp
next
  case (Cons x xs)
  have d: "distinct xs" "x \<notin> set xs" using Cons.prems(1) by simp_all
  have i: "i < length (virtual_loss x h)" using Cons.prems(2) by simp
  have step: "fold virtual_loss (x # xs) h ! i = fold virtual_loss xs (virtual_loss x h) ! i"
    by simp
  show ?case
  proof (cases "i \<in> set xs")
    case True
    then have "i \<noteq> x" using d(2) by blast
    then have "virtual_loss x h ! i = h ! i"
      using Cons.prems(2) by (simp add: virtual_loss_nth)
    then show ?thesis
      unfolding step Cons.IH[OF d(1) i] using True by simp
  next
    case False
    then show ?thesis
      unfolding step Cons.IH[OF d(1) i] using Cons.prems(2)
      by (simp add: virtual_loss_nth)
  qed
qed

subsection \<open>best child\<close>

lemma tree_heap_child:
  "tree_heap h \<Longrightarrow> n < length h \<Longrightarrow> c \<in> snd ` set (children (h ! n)) \<Longrightarrow>
   n < c \<and> c < length h \<and> parent (h ! c) = Some n"
  unfolding tree_heap_def by fastforce

lemma score_child:
  "tree_heap h \<Longrightarrow> n < length h \<Longrightarrow> c \<in> snd ` set (children (h ! n)) \<Longrightarrow>
   score h c = Inr (Q h c + sqrt (real (number_visits (h ! n))) * prior (h ! c)
                              / (1 + real (number_visits (h ! c))))"
  using tree_heap_child[of h n c] by (simp add: score_def U_def)

lemma best_child_first_max:
  assumes "tree_heap h" "n < length h" "children (h ! n) \<noteq> []"
  shows "\<exists>c s. best_child h n = Inr c \<and> first_max (score h) (map snd (children (h ! n))) c s"
  unfolding best_child_def
proof (rule py_max_first_max)
  show "map snd (children (h ! n)) \<noteq> []" using assms(3) by simp
  show "\<forall>x \<in> set (map snd (children (h ! n))). \<exists>k. score h x = Inr k"
    using score_child[OF assms(1,2)] by auto
qed

subsection \<open>select_leaf\<close>

lemma select_leaf_path:
  "tree_heap h \<Longrightarrow> populated h \<Longrightarrow> n < length h \<Longrightarrow>
   \<exists>path. path \<noteq> [] \<and> hd path = n \<and> selection_path h path
     \<and> select_leaf h n = Some (Inr (fold virtual_loss (butlast path) h, last path))
     \<and> sorted_wrt (<) path \<and> (\<forall>x \<in> set path. x < length h)"
proof (induction "length h - n" arbitrary: h n rule: less_induct)
  case less
  show ?case
  proof (cases "is_expanded (h ! n)")
    case False
    then have "select_leaf h n = Some (Inr (h, n))"
      by (subst select_leaf.simps) simp
    with False less.prems show ?thesis
      by (intro exI[of _ "[n]"]) simp
  next
    case True
    let ?h1 = "virtual_loss n h"
    have ch: "children (?h1 ! n) \<noteq> []"
      using True less.prems by (simp add: populated_def)
    have th1: "tree_heap ?h1" "populated ?h1" "n < length ?h1"
      using less.prems by simp_all
    from best_child_first_max[OF th1(1) th1(3) ch] obtain c s where
      bc: "best_child ?h1 n = Inr c"
      and fm: "first_max (score ?h1) (map snd (children (h ! n))) c s"
      by auto
    from first_max_mem[OF fm] have cmem: "c \<in> snd ` set (children (h ! n))" by simp
    from tree_heap_child[OF less.prems(1) less.prems(3) cmem]
    have c: "n < c" "c < length h" by simp_all
    have "length ?h1 - c < length h - n" using c by simp
    from less.hyps[OF this th1(1) th1(2)] c
    obtain path where p: "path \<noteq> []" "hd path = c" "selection_path ?h1 path"
      "select_leaf ?h1 c = Some (Inr (fold virtual_loss (butlast path) ?h1, last path))"
      "sorted_wrt (<) path" "\<forall>x \<in> set path. x < length h"
      by auto
    from p(1,2) obtain rest where path: "path = c # rest" by (cases path) auto
    have sl: "select_leaf h n = select_leaf ?h1 c"
      using True bc by (subst select_leaf.simps) simp
    have "\<forall>x \<in> set path. c \<le> x" using p(5) path by auto
    then have srt: "sorted_wrt (<) (n # path)" using p(5) c(1) by auto
    show ?thesis
    proof (intro exI[of _ "n # path"] conjI)
      show "selection_path h (n # path)"
        using True fm p(3) unfolding path by auto
      show "select_leaf h n
              = Some (Inr (fold virtual_loss (butlast (n # path)) h, last (n # path)))"
        using sl p(4) p(1) by simp
      show "sorted_wrt (<) (n # path)" by (rule srt)
      show "\<forall>x \<in> set (n # path). x < length h" using p(6) less.prems(3) by simp
    qed simp_all
  qed
qed

lemma selection_path_expanded:
  "selection_path h path \<Longrightarrow>
   (\<forall>x \<in> set (butlast path). is_expanded (h ! x)) \<and> \<not> is_expanded (h ! last path)"
proof (induction h path rule: selection_path.induct)
  case (1 h)
  then show ?case by simp
next
  case (2 h leaf)
  then show ?case by simp
next
  case (3 h n c rest)
  then show ?case by simp
qed

lemma sorted_wrt_less_distinct: "sorted_wrt (<) (xs :: nat list) \<Longrightarrow> distinct xs"
  by (induction xs) auto

text \<open>
  C7 (amended). On any finite tree in which every expanded node has at least one child,
  \<open>select_leaf\<close> terminates and returns a node that is not expanded. The nodes it passes
  through before that one are expanded, among them the node it was invoked on when that
  node is expanded; each of them has its visit count incremented and its cumulative value
  total decremented by 1, and nothing else in the heap changes. Each descent goes to the
  child of greatest \<open>Q + U\<close>, the first of them in the order of the dictionary, evaluated
  after the visit and the virtual loss of the node that is left.
\<close>

theorem select_leaf_spec:
  assumes "tree_heap h" and "populated h" and "n < length h"
  shows "\<exists>path. path \<noteq> [] \<and> hd path = n \<and> selection_path h path \<and> distinct path
           \<and> select_leaf h n = Some (Inr (fold virtual_loss (butlast path) h, last path))
           \<and> last path < length h
           \<and> \<not> is_expanded (fold virtual_loss (butlast path) h ! last path)
           \<and> (\<forall>x \<in> set (butlast path). is_expanded (h ! x))
           \<and> (\<forall>i < length h.
                 fold virtual_loss (butlast path) h ! i =
                   (if i \<in> set (butlast path)
                    then (h ! i)\<lparr>number_visits := number_visits (h ! i) + 1,
                                  total_value := total_value (h ! i) - 1\<rparr>
                    else h ! i))"
proof -
  from select_leaf_path[OF assms] obtain path where
    p: "path \<noteq> []" "hd path = n" "selection_path h path"
       "select_leaf h n = Some (Inr (fold virtual_loss (butlast path) h, last path))"
       "sorted_wrt (<) path" "\<forall>x \<in> set path. x < length h"
    by blast
  have d: "distinct path" using p(5) by (rule sorted_wrt_less_distinct)
  then have db: "distinct (butlast path)" by (rule distinct_butlast)
  have lastn: "last path \<notin> set (butlast path)"
    using d p(1) by (metis append_butlast_last_id distinct_append disjoint_iff
        list.set_intros(1) distinct.simps(2))
  have ll: "last path < length h" using p(1) p(6) by simp
  from selection_path_expanded[OF p(3)]
  have e: "\<forall>x \<in> set (butlast path). is_expanded (h ! x)" "\<not> is_expanded (h ! last path)"
    by simp_all
  have nth: "\<forall>i < length h.
                 fold virtual_loss (butlast path) h ! i =
                   (if i \<in> set (butlast path)
                    then (h ! i)\<lparr>number_visits := number_visits (h ! i) + 1,
                                  total_value := total_value (h ! i) - 1\<rparr>
                    else h ! i)"
    using fold_virtual_loss_nth[OF db] by blast
  have "\<not> is_expanded (fold virtual_loss (butlast path) h ! last path)"
    using nth ll lastn e(2) by simp
  with p d ll e nth show ?thesis by blast
qed

lemma example_tree_ok: "tree_heap example_tree" "populated example_tree"
  by (simp_all add: tree_heap_def populated_def example_tree_def All_less_Suc)

lemma example_tree_length: "(0::nat) < length example_tree"
  by (simp add: example_tree_def)

theorem select_leaf_spec_witness:
  "tree_heap example_tree \<and> populated example_tree \<and> (0::nat) < length example_tree
   \<and> (\<exists>path. path \<noteq> [] \<and> hd path = 0 \<and> selection_path example_tree path
         \<and> select_leaf example_tree 0
             = Some (Inr (fold virtual_loss (butlast path) example_tree, last path))
         \<and> \<not> is_expanded (fold virtual_loss (butlast path) example_tree ! last path))"
proof -
  from select_leaf_spec[OF example_tree_ok example_tree_length]
  obtain path where "path \<noteq> []" "hd path = 0" "selection_path example_tree path"
    "select_leaf example_tree 0
       = Some (Inr (fold virtual_loss (butlast path) example_tree, last path))"
    "\<not> is_expanded (fold virtual_loss (butlast path) example_tree ! last path)"
    by blast
  then show ?thesis using example_tree_ok example_tree_length by blast
qed

text \<open>
  The claim as stated fails on the one-node tree whose root was expanded with an empty
  list of priors: \<open>best_child\<close> takes the maximum of no children.
\<close>

theorem select_leaf_childless_counterexample:
  "select_leaf (expand (\<lambda>g m. g) 0 [] [new_node () None 0]) 0 = Some (Inl ValueError)"
  by (simp add: select_leaf.simps expand_def new_node_def best_child_def virtual_loss_def)

subsection \<open>ancestors and backup\<close>

lemma ancestors_less: "a \<in> set (ancestors h n) \<Longrightarrow> a < n"
proof (induction h n rule: ancestors.induct)
  case (1 h n)
  show ?case
  proof (cases "parent (h ! n)")
    case None
    with "1.prems" show ?thesis by (simp add: ancestors.simps)
  next
    case (Some p)
    show ?thesis
    proof (cases "p < n")
      case True
      with Some "1.prems" have "a = p \<or> a \<in> set (ancestors h p)"
        by (subst (asm) ancestors.simps) simp
      with "1.IH"[OF Some True] True show ?thesis by auto
    next
      case False
      with Some "1.prems" show ?thesis by (simp add: ancestors.simps)
    qed
  qed
qed

lemma ancestors_cong:
  "\<forall>i. parent (h' ! i) = parent (h ! i) \<Longrightarrow> ancestors h' n = ancestors h n"
proof (induction h n rule: ancestors.induct)
  case (1 h n)
  show ?case
  proof (cases "parent (h ! n)")
    case None
    with "1.prems" show ?thesis by (simp add: ancestors.simps)
  next
    case (Some p)
    show ?thesis
    proof (cases "p < n")
      case True
      from "1.IH"[OF Some True "1.prems"] Some True "1.prems" show ?thesis
        by (simp add: ancestors.simps[of h n] ancestors.simps[of h' n])
    next
      case False
      with Some "1.prems" show ?thesis
        by (simp add: ancestors.simps[of h n] ancestors.simps[of h' n])
    qed
  qed
qed

lemma length_add_value [simp]: "length (add_value v n h) = length h"
  by (simp add: add_value_def)

lemma add_value_nth:
  "i < length h \<Longrightarrow>
   add_value v n h ! i =
     (if i = n then (h ! i)\<lparr>total_value := total_value (h ! i) + (v + 1)\<rparr> else h ! i)"
  by (simp add: add_value_def nth_list_update)

lemma add_value_nth_beyond: "length h \<le> i \<Longrightarrow> add_value v n h ! i = h ! i"
  unfolding add_value_def
  by (metis nth_list_update_neq list_update_beyond)

lemma add_value_parent [simp]: "parent (add_value v n h ! i) = parent (h ! i)"
  by (cases "i < length h") (simp_all add: add_value_nth add_value_nth_beyond)

lemma add_value_children [simp]: "children (add_value v n h ! i) = children (h ! i)"
  by (cases "i < length h") (simp_all add: add_value_nth add_value_nth_beyond)

lemma tree_heap_add_value [simp]: "tree_heap (add_value v n h) = tree_heap h"
  by (simp add: tree_heap_def)

lemma backup_step:
  "backup h n v =
     (case parent (h ! n) of None \<Rightarrow> Some h | Some p \<Rightarrow> backup (add_value v n h) p v)"
  by (subst backup.simps) (simp add: add_value_def split: option.splits)

lemma tree_heap_parent_less:
  "tree_heap h \<Longrightarrow> n < length h \<Longrightarrow> parent (h ! n) = Some p \<Longrightarrow> p < n"
  unfolding tree_heap_def by blast

lemma backup_nodes_None: "parent (h ! n) = None \<Longrightarrow> backup_nodes h n = []"
  by (simp add: backup_nodes_def ancestors.simps)

lemma backup_nodes_Some:
  "parent (h ! n) = Some p \<Longrightarrow> p < n \<Longrightarrow> backup_nodes h n = n # backup_nodes h p"
  by (simp add: backup_nodes_def ancestors.simps[of h n])

lemma backup_nodes_cong:
  assumes "\<forall>i. parent (h' ! i) = parent (h ! i)"
  shows "backup_nodes h' n = backup_nodes h n"
  using ancestors_cong[OF assms, of n] assms by (simp add: backup_nodes_def)

lemma backup_fold:
  "tree_heap h \<Longrightarrow> n < length h \<Longrightarrow>
   backup h n v = Some (fold (add_value v) (backup_nodes h n) h)"
proof (induction n arbitrary: h rule: less_induct)
  case (less n)
  show ?case
  proof (cases "parent (h ! n)")
    case None
    then show ?thesis by (simp add: backup_step backup_nodes_None)
  next
    case (Some p)
    from tree_heap_parent_less[OF less.prems Some] have pn: "p < n" .
    have "backup (add_value v n h) p v
            = Some (fold (add_value v) (backup_nodes (add_value v n h) p) (add_value v n h))"
      using less.prems pn by (intro less.IH) simp_all
    moreover have "backup_nodes (add_value v n h) p = backup_nodes h p"
      by (rule backup_nodes_cong) simp
    ultimately show ?thesis
      using Some pn by (simp add: backup_step backup_nodes_Some)
  qed
qed

lemma backup_nodes_distinct: "distinct (backup_nodes h n)"
proof -
  have "distinct (ancestors h n)"
  proof (induction h n rule: ancestors.induct)
    case (1 h n)
    show ?case
    proof (cases "parent (h ! n)")
      case None
      then show ?thesis by (simp add: ancestors.simps)
    next
      case (Some p)
      show ?thesis
      proof (cases "p < n")
        case True
        have "p \<notin> set (ancestors h p)" using ancestors_less[of p h p] by auto
        with "1.IH"[OF Some True] Some True show ?thesis
          by (simp add: ancestors.simps[of h n])
      next
        case False
        with Some show ?thesis by (simp add: ancestors.simps[of h n])
      qed
    qed
  qed
  moreover have "n \<notin> set (ancestors h n)" using ancestors_less[of n h n] by auto
  ultimately show ?thesis by (simp add: backup_nodes_def)
qed

lemma fold_add_value_length [simp]: "length (fold (add_value v) xs h) = length h"
  by (induction xs arbitrary: h) auto

lemma fold_add_value_nth:
  "distinct xs \<Longrightarrow> i < length h \<Longrightarrow>
   fold (add_value v) xs h ! i =
     (if i \<in> set xs then (h ! i)\<lparr>total_value := total_value (h ! i) + (v + 1)\<rparr>
      else h ! i)"
proof (induction xs arbitrary: h)
  case Nil
  then show ?case by simp
next
  case (Cons x xs)
  have d: "distinct xs" "x \<notin> set xs" using Cons.prems(1) by simp_all
  have i: "i < length (add_value v x h)" using Cons.prems(2) by simp
  have step: "fold (add_value v) (x # xs) h ! i = fold (add_value v) xs (add_value v x h) ! i"
    by simp
  show ?case
  proof (cases "i \<in> set xs")
    case True
    then have "i \<noteq> x" using d(2) by blast
    then have "add_value v x h ! i = h ! i"
      using Cons.prems(2) by (simp add: add_value_nth)
    then show ?thesis
      unfolding step Cons.IH[OF d(1) i] using True by simp
  next
    case False
    then show ?thesis
      unfolding step Cons.IH[OF d(1) i] using Cons.prems(2)
      by (simp add: add_value_nth)
  qed
qed

lemma ancestors_root:
  "tree_heap h \<Longrightarrow> n < length h \<Longrightarrow> parent (h ! n) \<noteq> None \<Longrightarrow>
   ancestors h n \<noteq> [] \<and> parent (h ! last (ancestors h n)) = None"
proof (induction n rule: less_induct)
  case (less n)
  from less.prems(3) obtain p where p: "parent (h ! n) = Some p" by auto
  from tree_heap_parent_less[OF less.prems(1,2) p] have pn: "p < n" .
  have anc: "ancestors h n = p # ancestors h p"
    using p pn by (simp add: ancestors.simps[of h n])
  show ?case
  proof (cases "parent (h ! p)")
    case None
    then have "ancestors h p = []" by (simp add: ancestors.simps)
    with anc None show ?thesis by simp
  next
    case (Some q)
    have "p < length h" using pn less.prems(2) by simp
    from less.IH[OF pn less.prems(1) this] Some anc show ?thesis by simp
  qed
qed

lemma backup_nodes_set:
  "i \<in> set (backup_nodes h n) \<longleftrightarrow> i \<in> set (n # ancestors h n) \<and> parent (h ! i) \<noteq> None"
  by (auto simp: backup_nodes_def)

lemma backup_nth:
  assumes "tree_heap h" and "n < length h"
  shows "\<exists>h'. backup h n v = Some h' \<and> length h' = length h
           \<and> (\<forall>i < length h.
                 h' ! i =
                   (if i \<in> set (n # ancestors h n) \<and> parent (h ! i) \<noteq> None
                    then (h ! i)\<lparr>total_value := total_value (h ! i) + (v + 1)\<rparr>
                    else h ! i))"
proof -
  let ?h' = "fold (add_value v) (backup_nodes h n) h"
  have "backup h n v = Some ?h'" by (rule backup_fold[OF assms])
  moreover have "length ?h' = length h" by simp
  moreover have "\<forall>i < length h.
                 ?h' ! i =
                   (if i \<in> set (n # ancestors h n) \<and> parent (h ! i) \<noteq> None
                    then (h ! i)\<lparr>total_value := total_value (h ! i) + (v + 1)\<rparr>
                    else h ! i)"
    using fold_add_value_nth[OF backup_nodes_distinct, of _ h v h n]
    by (simp only: backup_nodes_set) blast
  ultimately show ?thesis by blast
qed

text \<open>
  C3. For every node \<open>n\<close> of a tree that has a parent and every value \<open>v\<close>, \<open>backup(v)\<close>
  on \<open>n\<close> terminates and adds \<open>v + 1\<close> to the cumulative value total of \<open>n\<close> and of every
  strict ancestor of \<open>n\<close> that has a parent itself; the last ancestor is the root, which
  has no parent, and its cumulative value total is unchanged. No other node changes.
\<close>

theorem backup_spec:
  assumes "tree_heap h" and "n < length h" and "parent (h ! n) \<noteq> None"
  shows "\<exists>h'. backup h n v = Some h' \<and> length h' = length h
           \<and> (\<forall>i < length h.
                 h' ! i =
                   (if i \<in> set (n # ancestors h n) \<and> parent (h ! i) \<noteq> None
                    then (h ! i)\<lparr>total_value := total_value (h ! i) + (v + 1)\<rparr>
                    else h ! i))
           \<and> total_value (h' ! n) = total_value (h ! n) + (v + 1)
           \<and> ancestors h n \<noteq> []
           \<and> parent (h ! last (ancestors h n)) = None
           \<and> total_value (h' ! last (ancestors h n)) = total_value (h ! last (ancestors h n))"
proof -
  from backup_nth[OF assms(1,2), of v] obtain h' where
    h': "backup h n v = Some h'" "length h' = length h"
    and nth: "\<forall>i < length h.
                 h' ! i =
                   (if i \<in> set (n # ancestors h n) \<and> parent (h ! i) \<noteq> None
                    then (h ! i)\<lparr>total_value := total_value (h ! i) + (v + 1)\<rparr>
                    else h ! i)"
    by blast
  from ancestors_root[OF assms] have
    r: "ancestors h n \<noteq> []" "parent (h ! last (ancestors h n)) = None"
    by simp_all
  have "last (ancestors h n) < n" using r(1) ancestors_less[of _ h n] by simp
  then have rl: "last (ancestors h n) < length h" using assms(2) by simp
  have vn: "total_value (h' ! n) = total_value (h ! n) + (v + 1)"
    using nth assms(2,3) by simp
  have vr: "total_value (h' ! last (ancestors h n)) = total_value (h ! last (ancestors h n))"
    using nth rl r(2) by simp
  from h' nth vn r vr show ?thesis by blast
qed

lemma example_select: "select_leaf example_tree 0 = Some (Inr (example_selected, 3))"
  by (simp add: select_leaf.simps example_tree_def example_selected_def virtual_loss_def
      best_child_def score_def U_def Q_def)

lemma example_backup: "backup example_selected 3 0 = Some example_backed_up"
  by (simp add: backup.simps example_selected_def example_backed_up_def)

lemma example_tree_grandchild:
  "(3::nat) < length example_tree" "parent (example_tree ! 3) \<noteq> None"
  "ancestors example_tree 3 = [1, 0]"
  by (simp_all add: example_tree_def ancestors.simps)

theorem backup_spec_witness:
  "tree_heap example_tree \<and> (3::nat) < length example_tree
   \<and> parent (example_tree ! 3) \<noteq> None
   \<and> (\<exists>h'. backup example_tree 3 (1 / 2) = Some h'
         \<and> total_value (h' ! 3) = total_value (example_tree ! 3) + (1 / 2 + 1)
         \<and> total_value (h' ! 1) = total_value (example_tree ! 1) + (1 / 2 + 1)
         \<and> total_value (h' ! 0) = total_value (example_tree ! 0))"
proof -
  from backup_spec[OF example_tree_ok(1) example_tree_grandchild(1,2), of "1 / 2"]
  obtain h' where h': "backup example_tree 3 (1 / 2) = Some h'"
    and nth: "\<forall>i < length example_tree.
                 h' ! i =
                   (if i \<in> set (3 # ancestors example_tree 3) \<and> parent (example_tree ! i) \<noteq> None
                    then (example_tree ! i)
                           \<lparr>total_value := total_value (example_tree ! i) + (1 / 2 + 1)\<rparr>
                    else example_tree ! i)"
    by blast
  have l: "(3::nat) < length example_tree" "(1::nat) < length example_tree"
    "(0::nat) < length example_tree"
    by (simp_all add: example_tree_def)
  have p: "parent (example_tree ! 3) \<noteq> None" "parent (example_tree ! 1) \<noteq> None"
    "parent (example_tree ! 0) = None"
    by (simp_all add: example_tree_def)
  have "total_value (h' ! 3) = total_value (example_tree ! 3) + (1 / 2 + 1)"
    using nth l(1) p(1) by (simp add: example_tree_grandchild(3))
  moreover have "total_value (h' ! 1) = total_value (example_tree ! 1) + (1 / 2 + 1)"
    using nth l(2) p(2) by (simp add: example_tree_grandchild(3))
  moreover have "total_value (h' ! 0) = total_value (example_tree ! 0)"
    using nth l(3) p(3) by (simp add: example_tree_grandchild(3))
  ultimately show ?thesis
    using h' example_tree_ok(1) example_tree_grandchild(1,2) by blast
qed

subsection \<open>add_child and expand\<close>

lemma length_add_child [simp]: "length (add_child play self move pr h) = Suc (length h)"
  by (simp add: add_child_def Let_def)

lemma add_child_nth_old:
  "i < length h \<Longrightarrow> i \<noteq> self \<Longrightarrow> add_child play self move pr h ! i = h ! i"
  by (simp add: add_child_def Let_def nth_append)

lemma add_child_nth_self:
  "self < length h \<Longrightarrow>
   add_child play self move pr h ! self
     = (h ! self)\<lparr>children := AList.update move (length h) (children (h ! self))\<rparr>"
  by (simp add: add_child_def Let_def nth_append)

lemma add_child_nth_new:
  "self < length h \<Longrightarrow>
   add_child play self move pr h ! length h
     = new_node (play (game_state (h ! self)) move) (Some self) pr"
  by (simp add: add_child_def Let_def nth_append)

lemma update_fresh: "k \<notin> fst ` set al \<Longrightarrow> AList.update k v al = al @ [(k, v)]"
  by (induction al) auto

lemma set_update_subset: "set (AList.update k v al) \<subseteq> insert (k, v) (set al)"
  by (induction al) auto

lemma distinct_snd_update:
  "distinct (map snd al) \<Longrightarrow> v \<notin> snd ` set al \<Longrightarrow> distinct (map snd (AList.update k v al))"
proof (induction al)
  case Nil
  then show ?case by simp
next
  case (Cons p al)
  have "snd ` set (AList.update k v al) \<subseteq> insert v (snd ` set al)"
    using set_update_subset[of k v al] by fastforce
  with Cons show ?case by auto
qed

lemma tree_heap_add_child:
  assumes t: "tree_heap h" and s: "self < length h"
  shows "tree_heap (add_child play self move pr h)"
proof -
  let ?h' = "add_child play self move pr h"
  have old: "\<And>i. i < length h \<Longrightarrow> parent (?h' ! i) = parent (h ! i)"
  proof -
    fix i assume "i < length h"
    then show "parent (?h' ! i) = parent (h ! i)"
      using s by (cases "i = self") (simp_all add: add_child_nth_old add_child_nth_self)
  qed
  have new: "?h' ! length h = new_node (play (game_state (h ! self)) move) (Some self) pr"
    using s by (rule add_child_nth_new)
  have node: "(\<forall>p. parent (?h' ! n) = Some p \<longrightarrow> p < n)
        \<and> (\<forall>(m, c) \<in> set (children (?h' ! n)).
              n < c \<and> c < length ?h' \<and> parent (?h' ! c) = Some n)
        \<and> distinct (map fst (children (?h' ! n)))
        \<and> distinct (map snd (children (?h' ! n)))" if n: "n < length ?h'" for n
  proof -
    consider "n = length h" | "n < length h" "n = self" | "n < length h" "n \<noteq> self"
      using n by fastforce
    then show ?thesis
    proof cases
      case 1
      then show ?thesis using new s by (simp add: new_node_def)
    next
      case 2
      from t 2 s have hn: "\<forall>p. parent (h ! n) = Some p \<longrightarrow> p < n"
        "\<forall>(m, c) \<in> set (children (h ! n)). n < c \<and> c < length h \<and> parent (h ! c) = Some n"
        "distinct (map fst (children (h ! n)))" "distinct (map snd (children (h ! n)))"
        unfolding tree_heap_def by blast+
      have ch: "children (?h' ! n) = AList.update move (length h) (children (h ! n))"
        using 2 s by (simp add: add_child_nth_self)
      have fresh: "length h \<notin> snd ` set (children (h ! n))"
        using hn(2) by fastforce
      have a: "\<forall>p. parent (?h' ! n) = Some p \<longrightarrow> p < n"
        using hn(1) old[OF 2(1)] by simp
      have b: "\<forall>(m, c) \<in> set (children (?h' ! n)).
                 n < c \<and> c < length ?h' \<and> parent (?h' ! c) = Some n"
      proof (clarify)
        fix m c assume "(m, c) \<in> set (children (?h' ! n))"
        then have "(m, c) = (move, length h) \<or> (m, c) \<in> set (children (h ! n))"
          unfolding ch using set_update_subset[of move "length h" "children (h ! n)"] by blast
        then show "n < c \<and> c < length ?h' \<and> parent (?h' ! c) = Some n"
        proof
          assume "(m, c) = (move, length h)"
          then show ?thesis using 2 new by (simp add: new_node_def)
        next
          assume "(m, c) \<in> set (children (h ! n))"
          with hn(2) have "n < c" "c < length h" "parent (h ! c) = Some n" by auto
          then show ?thesis using old[of c] by simp
        qed
      qed
      have c: "distinct (map fst (children (?h' ! n)))"
        unfolding ch using hn(3) by (rule distinct_update)
      have d: "distinct (map snd (children (?h' ! n)))"
        unfolding ch using hn(4) fresh by (rule distinct_snd_update)
      from a b c d show ?thesis by blast
    next
      case 3
      from t 3 have hn: "\<forall>p. parent (h ! n) = Some p \<longrightarrow> p < n"
        "\<forall>(m, c) \<in> set (children (h ! n)). n < c \<and> c < length h \<and> parent (h ! c) = Some n"
        "distinct (map fst (children (h ! n)))" "distinct (map snd (children (h ! n)))"
        unfolding tree_heap_def by blast+
      have same: "?h' ! n = h ! n" using 3 by (simp add: add_child_nth_old)
      have b: "\<forall>(m, c) \<in> set (children (?h' ! n)).
                 n < c \<and> c < length ?h' \<and> parent (?h' ! c) = Some n"
      proof (clarify)
        fix m c assume "(m, c) \<in> set (children (?h' ! n))"
        with hn(2) same have "n < c" "c < length h" "parent (h ! c) = Some n" by auto
        then show "n < c \<and> c < length ?h' \<and> parent (?h' ! c) = Some n"
          using old[of c] by simp
      qed
      from hn b show ?thesis unfolding same by blast
    qed
  qed
  show ?thesis unfolding tree_heap_def using node by blast
qed

lemma fold_add_child_expand_loop:
  "fold (\<lambda>(move, prior'). add_child play self move prior') (enumerate m ps) h
     = expand_loop play self m ps h"
  by (induction ps arbitrary: m h) simp_all

lemma expand_expand_loop:
  "expand play self ps h
     = expand_loop play self 0 ps (h[self := (h ! self)\<lparr>is_expanded := True\<rparr>])"
  by (simp add: expand_def fold_add_child_expand_loop)

lemma length_expand_loop [simp]:
  "length (expand_loop play self m ps h) = length h + length ps"
  by (induction ps arbitrary: m h) simp_all

lemma expand_loop_nth_old:
  "i < length h \<Longrightarrow> i \<noteq> self \<Longrightarrow> expand_loop play self m ps h ! i = h ! i"
  by (induction ps arbitrary: m h) (simp_all add: add_child_nth_old)

lemma expand_loop_self_fields:
  "self < length h \<Longrightarrow>
   is_expanded (expand_loop play self m ps h ! self) = is_expanded (h ! self)
   \<and> parent (expand_loop play self m ps h ! self) = parent (h ! self)
   \<and> prior (expand_loop play self m ps h ! self) = prior (h ! self)
   \<and> total_value (expand_loop play self m ps h ! self) = total_value (h ! self)
   \<and> number_visits (expand_loop play self m ps h ! self) = number_visits (h ! self)
   \<and> game_state (expand_loop play self m ps h ! self) = game_state (h ! self)"
proof (induction ps arbitrary: m h)
  case Nil
  then show ?case by simp
next
  case (Cons p ps)
  let ?h1 = "add_child play self m p h"
  have s1: "self < length ?h1" using Cons.prems by simp
  have e: "?h1 ! self = (h ! self)\<lparr>children := AList.update m (length h) (children (h ! self))\<rparr>"
    using Cons.prems by (rule add_child_nth_self)
  have "expand_loop play self m (p # ps) h = expand_loop play self (Suc m) ps ?h1" by simp
  then show ?case
    using Cons.IH[OF s1, of "Suc m"] by (simp only: e) simp
qed

lemma expand_loop_children:
  "self < length h \<Longrightarrow> \<forall>k \<in> fst ` set (children (h ! self)). k < m \<Longrightarrow>
   children (expand_loop play self m ps h ! self)
     = children (h ! self) @ map (\<lambda>j. (m + j, length h + j)) [0..<length ps]"
proof (induction ps arbitrary: m h)
  case Nil
  then show ?case by simp
next
  case (Cons p ps)
  let ?h1 = "add_child play self m p h"
  have s1: "self < length ?h1" using Cons.prems by simp
  have fresh: "m \<notin> fst ` set (children (h ! self))" using Cons.prems(2) by auto
  have ch1: "children (?h1 ! self) = children (h ! self) @ [(m, length h)]"
    using Cons.prems(1) fresh by (simp add: add_child_nth_self update_fresh)
  have k1: "\<forall>k \<in> fst ` set (children (?h1 ! self)). k < Suc m"
    unfolding ch1 using Cons.prems(2) by auto
  have "map (\<lambda>j. (m + j, length h + j)) [0..<length (p # ps)]
          = (m, length h) # map (\<lambda>j. (Suc m + j, length ?h1 + j)) [0..<length ps]"
    by (simp add: map_upt_Suc del: upt_Suc)
  moreover have "children (expand_loop play self (Suc m) ps ?h1 ! self)
          = children (?h1 ! self) @ map (\<lambda>j. (Suc m + j, length ?h1 + j)) [0..<length ps]"
    by (rule Cons.IH[OF s1 k1])
  ultimately show ?case unfolding ch1 by simp
qed

lemma expand_loop_nth_new:
  "self < length h \<Longrightarrow> j < length ps \<Longrightarrow>
   expand_loop play self m ps h ! (length h + j)
     = new_node (play (game_state (h ! self)) (m + j)) (Some self) (ps ! j)"
proof (induction ps arbitrary: m h j)
  case Nil
  then show ?case by simp
next
  case (Cons p ps)
  let ?h1 = "add_child play self m p h"
  have s1: "self < length ?h1" using Cons.prems by simp
  have gs: "game_state (?h1 ! self) = game_state (h ! self)"
    using Cons.prems(1) by (simp add: add_child_nth_self)
  show ?case
  proof (cases j)
    case 0
    have "length h < length ?h1" "length h \<noteq> self" using Cons.prems(1) by simp_all
    then have "expand_loop play self (Suc m) ps ?h1 ! length h = ?h1 ! length h"
      by (rule expand_loop_nth_old)
    then show ?thesis using 0 Cons.prems(1) by (simp add: add_child_nth_new)
  next
    case (Suc j')
    then have "j' < length ps" using Cons.prems(2) by simp
    from Cons.IH[OF s1 this, of "Suc m"] gs Suc show ?thesis by simp
  qed
qed

lemma tree_heap_expand_loop:
  "tree_heap h \<Longrightarrow> self < length h \<Longrightarrow> tree_heap (expand_loop play self m ps h)"
proof (induction ps arbitrary: m h)
  case Nil
  then show ?case by simp
next
  case (Cons p ps)
  have "tree_heap (add_child play self m p h)"
    using Cons.prems by (rule tree_heap_add_child)
  moreover have "self < length (add_child play self m p h)" using Cons.prems(2) by simp
  ultimately show ?case using Cons.IH by simp
qed

lemma max_loop_Inr_keys:
  "max_loop key xs b kb = Inr y \<Longrightarrow> \<forall>x \<in> set xs. \<exists>k. key x = Inr k"
proof (induction xs arbitrary: b kb)
  case Nil
  then show ?case by simp
next
  case (Cons x xs)
  show ?case
  proof (cases "key x")
    case (Inl e)
    with Cons.prems show ?thesis by simp
  next
    case (Inr kx)
    with Cons.prems have "max_loop key xs x kx = Inr y \<or> max_loop key xs b kb = Inr y"
      by (simp split: if_splits)
    with Cons.IH have "\<forall>x \<in> set xs. \<exists>k. key x = Inr k" by blast
    with Inr show ?thesis by simp
  qed
qed

lemma py_max_Inr:
  assumes "py_max key xs = Inr y"
  shows "\<exists>ky. first_max key xs y ky"
proof -
  from assms obtain b bs where xs: "xs = b # bs" by (cases xs) auto
  from assms xs obtain kb where kb: "key b = Inr kb" by (cases "key b") auto
  from assms xs kb have "max_loop key bs b kb = Inr y" by simp
  from max_loop_Inr_keys[OF this] kb xs have keys: "\<forall>x \<in> set xs. \<exists>k. key x = Inr k"
    by simp
  have "xs \<noteq> []" using xs by simp
  from py_max_first_max[OF this keys] assms show ?thesis by auto
qed

lemma select_leaf_Inr:
  "tree_heap h \<Longrightarrow> n < length h \<Longrightarrow> select_leaf h n = Some (Inr (h1, leaf)) \<Longrightarrow>
   \<exists>path. path \<noteq> [] \<and> hd path = n \<and> last path = leaf
     \<and> h1 = fold virtual_loss (butlast path) h \<and> selection_path h path
     \<and> sorted_wrt (<) path \<and> (\<forall>x \<in> set path. x < length h)"
proof (induction "length h - n" arbitrary: h n rule: less_induct)
  case less
  show ?case
  proof (cases "is_expanded (h ! n)")
    case False
    then have "select_leaf h n = Some (Inr (h, n))"
      by (subst select_leaf.simps) simp
    with less.prems(3) have "h1 = h" "leaf = n" by simp_all
    with False less.prems show ?thesis
      by (intro exI[of _ "[n]"]) simp
  next
    case True
    let ?hv = "virtual_loss n h"
    have sl: "select_leaf h n =
        (case best_child ?hv n of Inl e \<Rightarrow> Some (Inl e) | Inr c \<Rightarrow> select_leaf ?hv c)"
      using True by (subst select_leaf.simps) simp
    from less.prems(3) sl obtain c where
      bc: "best_child ?hv n = Inr c" and slc: "select_leaf ?hv c = Some (Inr (h1, leaf))"
      by (cases "best_child ?hv n") auto
    from py_max_Inr[OF bc[unfolded best_child_def]] obtain s where
      fm: "first_max (score ?hv) (map snd (children (h ! n))) c s" by auto
    from first_max_mem[OF fm] have cmem: "c \<in> snd ` set (children (h ! n))" by simp
    from tree_heap_child[OF less.prems(1) less.prems(2) cmem]
    have c: "n < c" "c < length h" by simp_all
    have m: "length ?hv - c < length h - n" using c by simp
    have t: "tree_heap ?hv" "c < length ?hv" using less.prems(1) c by simp_all
    from less.hyps[OF m t slc]
    obtain path where p: "path \<noteq> []" "hd path = c" "last path = leaf"
      "h1 = fold virtual_loss (butlast path) ?hv" "selection_path ?hv path"
      "sorted_wrt (<) path" "\<forall>x \<in> set path. x < length h"
      by auto
    from p(1,2) obtain rest where path: "path = c # rest" by (cases path) auto
    have "\<forall>x \<in> set path. c \<le> x" using p(6) path by auto
    then have srt: "sorted_wrt (<) (n # path)" using p(6) c(1) by auto
    show ?thesis
    proof (intro exI[of _ "n # path"] conjI)
      show "selection_path h (n # path)"
        using True fm p(5) unfolding path by auto
      show "h1 = fold virtual_loss (butlast (n # path)) h" using p(4) p(1) by simp
      show "last (n # path) = leaf" using p(1,3) by simp
      show "sorted_wrt (<) (n # path)" by (rule srt)
      show "\<forall>x \<in> set (n # path). x < length h" using p(7) less.prems(2) by simp
    qed simp_all
  qed
qed

lemma selection_path_parent:
  "tree_heap h \<Longrightarrow> selection_path h path \<Longrightarrow> \<forall>x \<in> set path. x < length h \<Longrightarrow>
   Suc j < length path \<Longrightarrow> parent (h ! (path ! Suc j)) = Some (path ! j)"
proof (induction h path arbitrary: j rule: selection_path.induct)
  case (1 h)
  then show ?case by simp
next
  case (2 h leaf)
  then show ?case by simp
next
  case (3 h n c rest)
  from "3.prems"(2) obtain s where
    fm: "first_max (score (virtual_loss n h)) (map snd (children (h ! n))) c s"
    and sp: "selection_path (virtual_loss n h) (c # rest)"
    by auto
  show ?case
  proof (cases j)
    case 0
    from first_max_mem[OF fm] have "c \<in> snd ` set (children (h ! n))" by simp
    from tree_heap_child[OF "3.prems"(1) _ this] "3.prems"(3) 0 show ?thesis by simp
  next
    case (Suc j')
    have "parent (virtual_loss n h ! ((c # rest) ! Suc j')) = Some ((c # rest) ! j')"
      using "3.prems" Suc sp by (intro "3.IH") simp_all
    then show ?thesis using Suc by simp
  qed
qed

lemma tree_heap_cong:
  assumes "length h' = length h"
    and "\<forall>i < length h. parent (h' ! i) = parent (h ! i) \<and> children (h' ! i) = children (h ! i)"
  shows "tree_heap h' = tree_heap h"
proof -
  have "\<forall>n < length h. \<forall>(m, c) \<in> set (children (h ! n)). c < length h \<longrightarrow>
          parent (h' ! c) = parent (h ! c)"
    using assms(2) by auto
  then show ?thesis
    unfolding tree_heap_def assms(1) using assms(2)
    by (intro all_cong1 imp_cong refl conj_cong ball_cong) auto
qed

lemma length_expand [simp]:
  "length (expand play self ps h) = length h + length ps"
  by (simp add: expand_expand_loop)

lemma expand_nth_old:
  "i < length h \<Longrightarrow> i \<noteq> self \<Longrightarrow> expand play self ps h ! i = h ! i"
  by (simp add: expand_expand_loop expand_loop_nth_old)

lemma expand_self_fields:
  assumes "self < length h"
  shows "is_expanded (expand play self ps h ! self)"
    and "parent (expand play self ps h ! self) = parent (h ! self)"
    and "prior (expand play self ps h ! self) = prior (h ! self)"
    and "total_value (expand play self ps h ! self) = total_value (h ! self)"
    and "number_visits (expand play self ps h ! self) = number_visits (h ! self)"
    and "game_state (expand play self ps h ! self) = game_state (h ! self)"
proof -
  let ?h0 = "h[self := (h ! self)\<lparr>is_expanded := True\<rparr>]"
  have s0: "self < length ?h0" using assms by simp
  from expand_loop_self_fields[OF s0, of play 0 ps] assms
  show "is_expanded (expand play self ps h ! self)"
    and "parent (expand play self ps h ! self) = parent (h ! self)"
    and "prior (expand play self ps h ! self) = prior (h ! self)"
    and "total_value (expand play self ps h ! self) = total_value (h ! self)"
    and "number_visits (expand play self ps h ! self) = number_visits (h ! self)"
    and "game_state (expand play self ps h ! self) = game_state (h ! self)"
    by (simp_all add: expand_expand_loop)
qed

lemma expand_children:
  assumes "self < length h" and "children (h ! self) = []"
  shows "children (expand play self ps h ! self)
           = map (\<lambda>j. (j, length h + j)) [0..<length ps]"
proof -
  let ?h0 = "h[self := (h ! self)\<lparr>is_expanded := True\<rparr>]"
  have s0: "self < length ?h0" using assms by simp
  have c0: "children (?h0 ! self) = []" using assms by simp
  then have k: "\<forall>k \<in> fst ` set (children (?h0 ! self)). k < 0" by simp
  from expand_loop_children[OF s0 k, of play ps] c0 show ?thesis
    by (simp add: expand_expand_loop)
qed

lemma expand_nth_new:
  assumes "self < length h" and "j < length ps"
  shows "expand play self ps h ! (length h + j)
           = new_node (play (game_state (h ! self)) j) (Some self) (ps ! j)"
proof -
  let ?h0 = "h[self := (h ! self)\<lparr>is_expanded := True\<rparr>]"
  have s0: "self < length ?h0" using assms by simp
  from expand_loop_nth_new[OF s0 assms(2), of play 0] assms(1) show ?thesis
    by (simp add: expand_expand_loop)
qed

lemma tree_heap_expand:
  assumes "tree_heap h" and "self < length h"
  shows "tree_heap (expand play self ps h)"
proof -
  let ?h0 = "h[self := (h ! self)\<lparr>is_expanded := True\<rparr>]"
  have "tree_heap ?h0 = tree_heap h"
  proof (rule tree_heap_cong)
    show "length ?h0 = length h" by simp
    show "\<forall>i < length h. parent (?h0 ! i) = parent (h ! i)
            \<and> children (?h0 ! i) = children (h ! i)"
    proof (intro allI impI)
      fix i assume "i < length h"
      then show "parent (?h0 ! i) = parent (h ! i) \<and> children (?h0 ! i) = children (h ! i)"
        by (cases "i = self") simp_all
    qed
  qed
  with assms(1) have "tree_heap ?h0" by simp
  moreover have "self < length ?h0" using assms(2) by simp
  ultimately show ?thesis
    unfolding expand_expand_loop by (rule tree_heap_expand_loop)
qed

lemma backup_fields:
  assumes "tree_heap h" and "n < length h" and "backup h n v = Some h'"
  shows "length h' = length h"
    and "\<forall>i < length h.
           number_visits (h' ! i) = number_visits (h ! i)
           \<and> is_expanded (h' ! i) = is_expanded (h ! i)
           \<and> children (h' ! i) = children (h ! i)
           \<and> parent (h' ! i) = parent (h ! i)"
proof -
  from backup_nth[OF assms(1,2), of v] assms(3) have
    l: "length h' = length h"
    and nth: "\<forall>i < length h.
                 h' ! i =
                   (if i \<in> set (n # ancestors h n) \<and> parent (h ! i) \<noteq> None
                    then (h ! i)\<lparr>total_value := total_value (h ! i) + (v + 1)\<rparr>
                    else h ! i)"
    by auto
  show "length h' = length h" by (rule l)
  show "\<forall>i < length h.
           number_visits (h' ! i) = number_visits (h ! i)
           \<and> is_expanded (h' ! i) = is_expanded (h ! i)
           \<and> children (h' ! i) = children (h ! i)
           \<and> parent (h' ! i) = parent (h ! i)"
  proof (intro allI impI)
    fix i assume "i < length h"
    with nth have "h' ! i =
                   (if i \<in> set (n # ancestors h n) \<and> parent (h ! i) \<noteq> None
                    then (h ! i)\<lparr>total_value := total_value (h ! i) + (v + 1)\<rparr>
                    else h ! i)" by blast
    then show "number_visits (h' ! i) = number_visits (h ! i)
           \<and> is_expanded (h' ! i) = is_expanded (h ! i)
           \<and> children (h' ! i) = children (h ! i)
           \<and> parent (h' ! i) = parent (h ! i)"
      by (cases "i \<in> set (n # ancestors h n) \<and> parent (h ! i) \<noteq> None") simp_all
  qed
qed

lemma fold_virtual_loss_fields:
  "parent (fold virtual_loss xs h ! i) = parent (h ! i)"
  "children (fold virtual_loss xs h ! i) = children (h ! i)"
  "is_expanded (fold virtual_loss xs h ! i) = is_expanded (h ! i)"
  "game_state (fold virtual_loss xs h ! i) = game_state (h ! i)"
  by (induction xs arbitrary: h; simp)+

lemma tree_heap_fold_virtual_loss [simp]:
  "tree_heap (fold virtual_loss xs h) = tree_heap h"
  by (induction xs arbitrary: h) simp_all

lemma search_read_effect:
  assumes inv: "search_inv h"
    and rd: "search_read play evaluate i 0 h = Some (Inr h')"
  shows "\<exists>path ps v. path \<noteq> [] \<and> hd path = 0 \<and> selection_path h path
           \<and> sorted_wrt (<) path \<and> (\<forall>x \<in> set path. x < length h)
           \<and> evaluate i (game_state (h ! last path)) = (ps, v)
           \<and> read_effect h path ps h' \<and> tree_heap h'"
proof -
  from inv have t: "tree_heap h" and l0: "0 < length h"
    and un: "\<forall>i < length h. \<not> is_expanded (h ! i) \<longrightarrow>
            children (h ! i) = [] \<and> number_visits (h ! i) = 0"
    unfolding search_inv_def by blast+
  from rd obtain h1 leaf where sl: "select_leaf h 0 = Some (Inr (h1, leaf))"
    unfolding search_read_def by (auto split: option.splits sum.splits)
  obtain ps v where ev: "evaluate i (game_state (h1 ! leaf)) = (ps, v)"
    by (cases "evaluate i (game_state (h1 ! leaf))") auto
  from rd sl ev have bk: "backup (expand play leaf ps h1) leaf v = Some h'"
    unfolding search_read_def by (auto split: option.splits)
  from select_leaf_Inr[OF t l0 sl] obtain path where
    p: "path \<noteq> []" "hd path = 0" "last path = leaf"
      "h1 = fold virtual_loss (butlast path) h" "selection_path h path"
      "sorted_wrt (<) path" "\<forall>x \<in> set path. x < length h"
    by blast
  have d: "distinct (butlast path)"
    using p(6) by (intro distinct_butlast sorted_wrt_less_distinct)
  have ll: "leaf < length h" using p(1,3,7) last_in_set by blast
  have l1: "length h1 = length h" using p(4) by simp
  from selection_path_expanded[OF p(5)] p(3)
  have lu: "\<not> is_expanded (h ! leaf)" by simp
  have lnb: "leaf \<notin> set (butlast path)"
    using sorted_wrt_less_distinct[OF p(6)] p(1,3)
    by (metis append_butlast_last_id distinct_append disjoint_iff
        list.set_intros(1) distinct.simps(2))
  have f1: "parent (h1 ! j) = parent (h ! j)" "children (h1 ! j) = children (h ! j)"
    "is_expanded (h1 ! j) = is_expanded (h ! j)" "game_state (h1 ! j) = game_state (h ! j)"
    for j
    unfolding p(4) by (simp_all add: fold_virtual_loss_fields)
  have v1: "number_visits (h1 ! j)
              = number_visits (h ! j) + (if j \<in> set (butlast path) then 1 else 0)"
    if "j < length h" for j
    unfolding p(4) using fold_virtual_loss_nth[OF d that] by simp
  have t1: "tree_heap h1" using t p(4) by simp
  let ?h2 = "expand play leaf ps h1"
  have ll1: "leaf < length h1" using ll l1 by simp
  have t2: "tree_heap ?h2" using t1 ll1 by (rule tree_heap_expand)
  have l2: "length ?h2 = length h + length ps" using l1 by simp
  have ll2: "leaf < length ?h2" using ll l2 by simp
  from backup_fields[OF t2 ll2 bk] have
    l3: "length h' = length ?h2"
    and f3: "\<forall>j < length ?h2.
           number_visits (h' ! j) = number_visits (?h2 ! j)
           \<and> is_expanded (h' ! j) = is_expanded (?h2 ! j)
           \<and> children (h' ! j) = children (?h2 ! j)
           \<and> parent (h' ! j) = parent (?h2 ! j)"
    by blast+
  have t3: "tree_heap h'"
    using tree_heap_cong[OF l3] f3 t2 by blast
  have c1: "children (h1 ! leaf) = []" using un ll lu f1(2) by simp
  have old: "parent (h' ! j) = parent (h ! j)
            \<and> is_expanded (h' ! j) = (is_expanded (h ! j) \<or> j = last path)
            \<and> children (h' ! j) =
                (if j = last path then map (\<lambda>k. (k, length h + k)) [0..<length ps]
                 else children (h ! j))
            \<and> number_visits (h' ! j) =
                number_visits (h ! j) + (if j \<in> set (butlast path) then 1 else 0)"
    if j: "j < length h" for j
  proof (cases "j = leaf")
    case True
    have j2: "j < length ?h2" using j l2 by simp
    from expand_self_fields[OF ll1, of play ps] expand_children[OF ll1 c1, of play ps]
    have "is_expanded (?h2 ! leaf)" "parent (?h2 ! leaf) = parent (h1 ! leaf)"
      "number_visits (?h2 ! leaf) = number_visits (h1 ! leaf)"
      "children (?h2 ! leaf) = map (\<lambda>k. (k, length h + k)) [0..<length ps]"
      using l1 by simp_all
    with f3 j2 True f1 v1[OF j] p(3) lnb show ?thesis by simp
  next
    case False
    have j2: "j < length ?h2" using j l2 by simp
    have "?h2 ! j = h1 ! j" using j l1 False by (simp add: expand_nth_old)
    with f3 j2 False f1 v1[OF j] p(3) show ?thesis by simp
  qed
  have new: "parent (h' ! (length h + k)) = Some (last path)
            \<and> \<not> is_expanded (h' ! (length h + k))
            \<and> children (h' ! (length h + k)) = []
            \<and> number_visits (h' ! (length h + k)) = 0"
    if k: "k < length ps" for k
  proof -
    have k2: "length h + k < length ?h2" using k l2 by simp
    have "?h2 ! (length h + k)
            = new_node (play (game_state (h1 ! leaf)) k) (Some leaf) (ps ! k)"
      using expand_nth_new[OF ll1 k, of play] l1 by simp
    with f3 k2 p(3) show ?thesis by (simp add: new_node_def)
  qed
  have "read_effect h path ps h'"
    unfolding read_effect_def using l3 l2 old new by simp
  moreover have "evaluate i (game_state (h ! last path)) = (ps, v)"
    using ev f1(4) p(3) by simp
  ultimately show ?thesis using p t3 by blast
qed

lemma read_effect_inv:
  assumes inv: "search_inv h" and sp: "selection_path h path"
    and re: "read_effect h path ps h'" and t': "tree_heap h'"
  shows "search_inv h'"
proof -
  from inv have l0: "0 < length h" and p0: "parent (h ! 0) = None"
    and un: "\<forall>i < length h. \<not> is_expanded (h ! i) \<longrightarrow>
            children (h ! i) = [] \<and> number_visits (h ! i) = 0"
    unfolding search_inv_def by blast+
  from re have len: "length h' = length h + length ps"
    and old: "\<forall>j < length h.
            parent (h' ! j) = parent (h ! j)
            \<and> is_expanded (h' ! j) = (is_expanded (h ! j) \<or> j = last path)
            \<and> children (h' ! j) =
                (if j = last path then map (\<lambda>k. (k, length h + k)) [0..<length ps]
                 else children (h ! j))
            \<and> number_visits (h' ! j) =
                number_visits (h ! j) + (if j \<in> set (butlast path) then 1 else 0)"
    and new: "\<forall>k < length ps.
            parent (h' ! (length h + k)) = Some (last path)
            \<and> \<not> is_expanded (h' ! (length h + k))
            \<and> children (h' ! (length h + k)) = []
            \<and> number_visits (h' ! (length h + k)) = 0"
    unfolding read_effect_def by blast+
  from selection_path_expanded[OF sp]
  have be: "\<forall>x \<in> set (butlast path). is_expanded (h ! x)" by simp
  have "children (h' ! i) = [] \<and> number_visits (h' ! i) = 0"
    if i: "i < length h'" and u: "\<not> is_expanded (h' ! i)" for i
  proof (cases "i < length h")
    case True
    with old u have u0: "\<not> is_expanded (h ! i)" "i \<noteq> last path" by auto
    with be have "i \<notin> set (butlast path)" by auto
    with old un True u0 show ?thesis by simp
  next
    case False
    then obtain k where "i = length h + k" "k < length ps"
      using i len by (metis add_diff_inverse_nat nat_add_left_cancel_less)
    with new show ?thesis by simp
  qed
  moreover have "0 < length h'" using l0 len by simp
  moreover have "parent (h' ! 0) = None" using old l0 p0 by simp
  ultimately show ?thesis unfolding search_inv_def using t' by blast
qed

lemma search_inv_initial: "search_inv [new_node g None 0]"
  by (simp add: search_inv_def tree_heap_def new_node_def)

lemma search_read_inv:
  assumes "search_inv h" and "search_read play evaluate i 0 h = Some (Inr h')"
  shows "search_inv h'"
proof -
  from search_read_effect[OF assms] obtain path ps where
    e: "selection_path h path" "read_effect h path ps h'" "tree_heap h'"
    by blast
  show ?thesis by (rule read_effect_inv[OF assms(1) e])
qed

lemma search_reads_inv:
  "search_reads play evaluate g n = Some (Inr h) \<Longrightarrow> search_inv h"
proof (induction n arbitrary: h)
  case 0
  then show ?case using search_inv_initial[of g] by simp
next
  case (Suc n)
  from Suc.prems obtain h0 where
    h0: "search_reads play evaluate g n = Some (Inr h0)"
    and rd: "search_read play evaluate n 0 h0 = Some (Inr h)"
    by (auto split: option.splits sum.splits)
  from Suc.IH[OF h0] rd show ?case by (rule search_read_inv)
qed

lemma search_read_monotone:
  assumes inv: "search_inv h" and rd: "search_read play evaluate i 0 h = Some (Inr h')"
  shows "length h \<le> length h'"
    and "\<forall>j < length h. is_expanded (h ! j) \<longrightarrow>
            is_expanded (h' ! j) \<and> children (h' ! j) = children (h ! j)"
proof -
  from search_read_effect[OF assms] obtain path ps where
    sp: "selection_path h path" and re: "read_effect h path ps h'"
    by blast
  from selection_path_expanded[OF sp] have lu: "\<not> is_expanded (h ! last path)" by simp
  from re show "length h \<le> length h'" unfolding read_effect_def by simp
  show "\<forall>j < length h. is_expanded (h ! j) \<longrightarrow>
            is_expanded (h' ! j) \<and> children (h' ! j) = children (h ! j)"
  proof (intro allI impI)
    fix j assume j: "j < length h" and e: "is_expanded (h ! j)"
    from e lu have ne: "j \<noteq> last path" by auto
    from re j have "is_expanded (h' ! j) = (is_expanded (h ! j) \<or> j = last path)"
      "children (h' ! j) =
                (if j = last path then map (\<lambda>k. (k, length h + k)) [0..<length ps]
                 else children (h ! j))"
      unfolding read_effect_def by blast+
    with e ne show "is_expanded (h' ! j) \<and> children (h' ! j) = children (h ! j)"
      by simp
  qed
qed

lemma search_reads_monotone:
  "search_reads play evaluate g (j + d) = Some (Inr hk) \<Longrightarrow>
   \<exists>hj. search_reads play evaluate g j = Some (Inr hj) \<and> length hj \<le> length hk
     \<and> (\<forall>i < length hj. is_expanded (hj ! i) \<longrightarrow>
            is_expanded (hk ! i) \<and> children (hk ! i) = children (hj ! i))"
proof (induction d arbitrary: hk)
  case 0
  then show ?case by simp
next
  case (Suc d)
  from Suc.prems obtain h0 where
    h0: "search_reads play evaluate g (j + d) = Some (Inr h0)"
    and rd: "search_read play evaluate (j + d) 0 h0 = Some (Inr hk)"
    by (auto split: option.splits sum.splits)
  from Suc.IH[OF h0] obtain hj where
    hj: "search_reads play evaluate g j = Some (Inr hj)" "length hj \<le> length h0"
    "\<forall>i < length hj. is_expanded (hj ! i) \<longrightarrow>
            is_expanded (h0 ! i) \<and> children (h0 ! i) = children (hj ! i)"
    by blast
  from search_read_monotone[OF search_reads_inv[OF h0] rd] have
    m: "length h0 \<le> length hk"
    "\<forall>j < length h0. is_expanded (h0 ! j) \<longrightarrow>
            is_expanded (hk ! j) \<and> children (hk ! j) = children (h0 ! j)"
    by blast+
  have "\<forall>i < length hj. is_expanded (hj ! i) \<longrightarrow>
            is_expanded (hk ! i) \<and> children (hk ! i) = children (hj ! i)"
  proof (intro allI impI)
    fix i assume i: "i < length hj" and e: "is_expanded (hj ! i)"
    from hj(3) i e have a: "is_expanded (h0 ! i)" "children (h0 ! i) = children (hj ! i)"
      by simp_all
    have "i < length h0" using i hj(2) by simp
    with m(2) a(1) have "is_expanded (hk ! i)" "children (hk ! i) = children (h0 ! i)"
      by simp_all
    with a(2) show "is_expanded (hk ! i) \<and> children (hk ! i) = children (hj ! i)" by simp
  qed
  moreover have "length hj \<le> length hk" using hj(2) m(1) by simp
  ultimately show ?case using hj(1) by blast
qed

lemmas mcts_eval = search_read_def select_leaf.simps backup.simps expand_def add_child_def
  new_node_def virtual_loss_def best_child_def score_def U_def Q_def GameState_play_def
  example_evaluate_def

lemma example_search_reads1:
  "search_reads GameState_play example_evaluate () (Suc 0) = Some (Inr example_reads1)"
  by (simp add: mcts_eval example_reads1_def)

lemma example_search_read2:
  "search_read GameState_play example_evaluate 1 0 example_reads1 = Some (Inr example_reads2)"
  by (simp add: mcts_eval example_reads1_def example_reads2_def)

lemma example_search_read3:
  "search_read GameState_play example_evaluate 2 0 example_reads2 = Some (Inr example_reads3)"
  by (simp add: mcts_eval example_reads2_def example_reads3_def)

lemma example_search_reads2:
  "search_reads GameState_play example_evaluate () (Suc (Suc 0)) = Some (Inr example_reads2)"
  using example_search_reads1 example_search_read2 by simp

lemma example_search_reads3:
  "search_reads GameState_play example_evaluate () (Suc (Suc (Suc 0))) = Some (Inr example_reads3)"
  using example_search_reads2 example_search_read3 by (simp add: numeral_2_eq_2)

text \<open>
  C8 (amended). A node is unexpanded or expanded, by its flag. No operation clears the
  flag: \<open>select_leaf\<close> and \<open>backup\<close> leave the flag and the children mapping of every
  node as they are, and \<open>expand\<close> sets the flag of its node and leaves every other node
  as it is. On a node without children \<open>expand\<close> populates the mapping with one fresh
  child per prior. In the search driver \<open>expand\<close> is only applied to such nodes: in every
  heap of a search an unexpanded node has no children, and a node that is expanded after
  \<open>j\<close> passes is expanded with the very same children mapping after any later pass.
  (Outside the driver, \<open>expand\<close> on a node that is already expanded overwrites the
  entries of its moves.)
\<close>

theorem node_state_machine:
  "(tree_heap h \<and> n < length h \<and> select_leaf h n = Some (Inr (h1, leaf)) \<longrightarrow>
      length h1 = length h
      \<and> (\<forall>i. is_expanded (h1 ! i) = is_expanded (h ! i) \<and> children (h1 ! i) = children (h ! i)))
   \<and> (tree_heap h \<and> n < length h \<and> backup h n v = Some h3 \<longrightarrow>
      length h3 = length h
      \<and> (\<forall>i < length h.
            is_expanded (h3 ! i) = is_expanded (h ! i) \<and> children (h3 ! i) = children (h ! i)))
   \<and> (n < length h \<longrightarrow>
      is_expanded (expand play n ps h ! n)
      \<and> (\<forall>i < length h. i \<noteq> n \<longrightarrow> expand play n ps h ! i = h ! i)
      \<and> (children (h ! n) = [] \<longrightarrow>
            children (expand play n ps h ! n) = map (\<lambda>k. (k, length h + k)) [0..<length ps]))
   \<and> (search_reads play evaluate g j = Some (Inr hj)
       \<and> search_reads play evaluate g (j + d) = Some (Inr hk) \<longrightarrow>
      length hj \<le> length hk
      \<and> (\<forall>i < length hj.
            (\<not> is_expanded (hj ! i) \<longrightarrow> children (hj ! i) = [])
            \<and> (is_expanded (hj ! i) \<longrightarrow>
                  is_expanded (hk ! i) \<and> children (hk ! i) = children (hj ! i))))"
proof (intro conjI impI)
  assume a: "tree_heap h \<and> n < length h \<and> select_leaf h n = Some (Inr (h1, leaf))"
  then obtain path where p: "h1 = fold virtual_loss (butlast path) h"
    using select_leaf_Inr[of h n h1 leaf] by blast
  show "length h1 = length h" unfolding p by simp
  show "\<forall>i. is_expanded (h1 ! i) = is_expanded (h ! i) \<and> children (h1 ! i) = children (h ! i)"
    unfolding p by (simp add: fold_virtual_loss_fields)
next
  assume a: "tree_heap h \<and> n < length h \<and> backup h n v = Some h3"
  then have a': "tree_heap h" "n < length h" "backup h n v = Some h3" by simp_all
  from backup_fields[OF a'] show "length h3 = length h" by blast
  from backup_fields[OF a'] show "\<forall>i < length h.
            is_expanded (h3 ! i) = is_expanded (h ! i) \<and> children (h3 ! i) = children (h ! i)"
    by blast
next
  assume n: "n < length h"
  show "is_expanded (expand play n ps h ! n)" using n by (rule expand_self_fields)
  show "\<forall>i < length h. i \<noteq> n \<longrightarrow> expand play n ps h ! i = h ! i"
    by (simp add: expand_nth_old)
  show "children (h ! n) = [] \<Longrightarrow>
        children (expand play n ps h ! n) = map (\<lambda>k. (k, length h + k)) [0..<length ps]"
    using n by (rule expand_children)
next
  assume a: "search_reads play evaluate g j = Some (Inr hj)
       \<and> search_reads play evaluate g (j + d) = Some (Inr hk)"
  then have hj: "search_reads play evaluate g j = Some (Inr hj)"
    and hk: "search_reads play evaluate g (j + d) = Some (Inr hk)" by simp_all
  from search_reads_monotone[OF hk] hj have
    m: "length hj \<le> length hk"
    "\<forall>i < length hj. is_expanded (hj ! i) \<longrightarrow>
            is_expanded (hk ! i) \<and> children (hk ! i) = children (hj ! i)"
    by simp_all
  from search_reads_inv[OF hj] have
    u: "\<forall>i < length hj. \<not> is_expanded (hj ! i) \<longrightarrow> children (hj ! i) = []"
    unfolding search_inv_def by blast
  show "length hj \<le> length hk" by (rule m(1))
  show "\<forall>i < length hj.
            (\<not> is_expanded (hj ! i) \<longrightarrow> children (hj ! i) = [])
            \<and> (is_expanded (hj ! i) \<longrightarrow>
                  is_expanded (hk ! i) \<and> children (hk ! i) = children (hj ! i))"
    using m(2) u by blast
qed

text \<open>
  The claim as stated fails when \<open>expand\<close> is called a second time on a node: the child
  under move 0 is replaced by a fresh node.
\<close>

theorem expand_twice_counterexample:
  "children (expand GameState_play 0 [1 / 2] [new_node () None 0] ! 0) = [(0, 1)]
   \<and> is_expanded (expand GameState_play 0 [1 / 2] [new_node () None 0] ! 0)
   \<and> children (expand GameState_play 0 [1 / 2]
                 (expand GameState_play 0 [1 / 2] [new_node () None 0]) ! 0) = [(0, 2)]"
  by (simp add: expand_def add_child_def new_node_def GameState_play_def)

theorem node_state_machine_witness:
  "tree_heap example_tree \<and> (0::nat) < length example_tree
   \<and> select_leaf example_tree 0 = Some (Inr (example_selected, 3))
   \<and> tree_heap example_selected \<and> (3::nat) < length example_selected
   \<and> backup example_selected 3 0 = Some example_backed_up
   \<and> search_reads GameState_play example_evaluate () 1 = Some (Inr example_reads1)
   \<and> search_reads GameState_play example_evaluate () (1 + 2) = Some (Inr example_reads3)
   \<and> children (example_selected ! 1) = children (example_tree ! 1)
   \<and> children (example_backed_up ! 1) = children (example_selected ! 1)
   \<and> is_expanded (expand GameState_play 3 [1] example_tree ! 3)
   \<and> children (expand GameState_play 3 [1] example_tree ! 3) = [(0, 4)]
   \<and> children (example_reads3 ! 0) = children (example_reads1 ! 0)"
proof -
  have s: "tree_heap example_selected" "(3::nat) < length example_selected"
    "(1::nat) < length example_selected"
    by (simp_all add: tree_heap_def example_selected_def All_less_Suc)
  have r: "search_reads GameState_play example_evaluate () 1 = Some (Inr example_reads1)"
    "search_reads GameState_play example_evaluate () (1 + 2) = Some (Inr example_reads3)"
    using example_search_reads1 example_search_reads3 by (simp_all add: numeral_3_eq_3)
  have e: "(3::nat) < length example_tree" "children (example_tree ! 3) = []"
    "(0::nat) < length example_reads1" "is_expanded (example_reads1 ! 0)"
    by (simp_all add: example_tree_def example_reads1_def)
  note a = node_state_machine[of example_tree 0 example_selected 3 0 example_backed_up
      GameState_play "[1]" example_evaluate "()" 1 example_reads1 2 example_reads3]
  note b = node_state_machine[of example_selected 3 example_selected 3 0 example_backed_up
      GameState_play "[1]" example_evaluate "()" 1 example_reads1 2 example_reads3]
  note c = node_state_machine[of example_tree 3 example_selected 3 0 example_backed_up
      GameState_play "[1]" example_evaluate "()" 1 example_reads1 2 example_reads3]
  have "children (example_selected ! 1) = children (example_tree ! 1)"
    using a example_tree_ok(1) example_tree_length example_select by blast
  moreover have "children (example_backed_up ! 1) = children (example_selected ! 1)"
    using b s example_backup by blast
  moreover have "is_expanded (expand GameState_play 3 [1] example_tree ! 3)"
    using c e(1) by blast
  moreover have "children (expand GameState_play 3 [1] example_tree ! 3) = [(0, 4)]"
    using c e(1,2) by (simp add: example_tree_def)
  moreover have "children (example_reads3 ! 0) = children (example_reads1 ! 0)"
    using a r e(3,4) by blast
  ultimately show ?thesis
    using example_tree_ok(1) example_tree_length example_select s(1,2) example_backup r
    by blast
qed

subsection \<open>Selection followed by backup\<close>

lemma ancestors_along_path:
  assumes t: "tree_heap h"
  shows "path \<noteq> [] \<Longrightarrow> \<forall>x \<in> set path. x < length h \<Longrightarrow>
         \<forall>j. Suc j < length path \<longrightarrow> parent (h ! (path ! Suc j)) = Some (path ! j) \<Longrightarrow>
         ancestors h (last path) = rev (butlast path) @ ancestors h (hd path)"
proof (induction path rule: rev_induct)
  case Nil
  then show ?case by simp
next
  case (snoc x ys)
  show ?case
  proof (cases "ys = []")
    case True
    then show ?thesis by simp
  next
    case False
    have xl: "x < length h" using snoc.prems(2) by simp
    have "Suc (length ys - 1) < length (ys @ [x])" using False by simp
    with snoc.prems(3)
    have "parent (h ! ((ys @ [x]) ! Suc (length ys - 1))) = Some ((ys @ [x]) ! (length ys - 1))"
      by blast
    then have link: "parent (h ! x) = Some (last ys)"
      using False by (simp add: nth_append last_conv_nth)
    from tree_heap_parent_less[OF t xl link] have lt: "last ys < x" .
    have a: "ancestors h x = last ys # ancestors h (last ys)"
      using link lt by (simp add: ancestors.simps[of h x])
    have b: "\<forall>x \<in> set ys. x < length h" using snoc.prems(2) by simp
    have c: "\<forall>j. Suc j < length ys \<longrightarrow> parent (h ! (ys ! Suc j)) = Some (ys ! j)"
    proof (intro allI impI)
      fix j assume j: "Suc j < length ys"
      then have "Suc j < length (ys @ [x])" by simp
      with snoc.prems(3)
      have "parent (h ! ((ys @ [x]) ! Suc j)) = Some ((ys @ [x]) ! j)" by blast
      with j show "parent (h ! (ys ! Suc j)) = Some (ys ! j)" by (simp add: nth_append)
    qed
    from snoc.IH[OF False b c]
    have ih: "ancestors h (last ys) = rev (butlast ys) @ ancestors h (hd ys)" .
    have "rev ys = rev (butlast ys @ [last ys])" using False by simp
    then have rv: "rev ys = last ys # rev (butlast ys)" by (simp only: rev_append rev.simps append.simps)
    have "ancestors h x = rev ys @ ancestors h (hd ys)"
      unfolding a ih rv by simp
    with False show ?thesis by simp
  qed
qed

lemma select_backup_effect:
  assumes t: "tree_heap h" and pop: "populated h" and r: "r < length h"
    and root: "parent (h ! r) = None"
  shows "\<exists>path hs h''.
           path \<noteq> [] \<and> hd path = r \<and> selection_path h path \<and> distinct path
           \<and> select_leaf h r = Some (Inr (hs, last path))
           \<and> backup hs (last path) v = Some h'' \<and> length h'' = length h
           \<and> (\<forall>i < length h.
                 number_visits (hs ! i)
                   = number_visits (h ! i) + (if i \<in> set (butlast path) then 1 else 0)
                 \<and> total_value (hs ! i)
                   = (if i \<in> set (butlast path) then total_value (h ! i) - 1
                      else total_value (h ! i))
                 \<and> number_visits (h'' ! i) = number_visits (hs ! i)
                 \<and> total_value (h'' ! i)
                   = (if i \<in> set path \<and> i \<noteq> r then total_value (hs ! i) + (v + 1)
                      else total_value (hs ! i)))"
proof -
  from select_leaf_path[OF t pop r] obtain path where
    p: "path \<noteq> []" "hd path = r" "selection_path h path"
       "select_leaf h r = Some (Inr (fold virtual_loss (butlast path) h, last path))"
       "sorted_wrt (<) path" "\<forall>x \<in> set path. x < length h"
    by blast
  let ?hs = "fold virtual_loss (butlast path) h"
  have d: "distinct path" using p(5) by (rule sorted_wrt_less_distinct)
  then have db: "distinct (butlast path)" by (rule distinct_butlast)
  have ll: "last path < length h" using p(1) p(6) by simp
  have links: "\<forall>j. Suc j < length path \<longrightarrow> parent (h ! (path ! Suc j)) = Some (path ! j)"
    using selection_path_parent[OF t p(3) p(6)] by blast
  have "ancestors h r = []" using root by (simp add: ancestors.simps)
  with ancestors_along_path[OF t p(1) p(6) links] p(2)
  have anc: "ancestors h (last path) = rev (butlast path)" by simp
  have "ancestors ?hs (last path) = ancestors h (last path)"
    by (rule ancestors_cong) (simp add: fold_virtual_loss_fields)
  with anc have anc_hs: "ancestors ?hs (last path) = rev (butlast path)" by simp
  have "set path = set (butlast path @ [last path])" using p(1) by simp
  then have sp: "set (last path # ancestors ?hs (last path)) = set path"
    using anc_hs by auto
  have ths: "tree_heap ?hs" "last path < length ?hs" using t ll by simp_all
  from backup_nth[OF ths, of v] obtain h'' where
    bb: "backup ?hs (last path) v = Some h'' \<and> length h'' = length ?hs
         \<and> (\<forall>i < length ?hs.
                 h'' ! i =
                   (if i \<in> set (last path # ancestors ?hs (last path)) \<and> parent (?hs ! i) \<noteq> None
                    then (?hs ! i)\<lparr>total_value := total_value (?hs ! i) + (v + 1)\<rparr>
                    else ?hs ! i))"
    ..
  note b = bb[THEN conjunct1] bb[THEN conjunct2, THEN conjunct1]
  note nth = bb[THEN conjunct2, THEN conjunct2]
  have rootp: "parent (h ! i) = None \<longleftrightarrow> i = r" if i: "i \<in> set path" for i
  proof -
    from i obtain j where j: "j < length path" "i = path ! j" by (auto simp: in_set_conv_nth)
    have r0: "r = path ! 0" using p(1,2) by (simp add: hd_conv_nth)
    show ?thesis
    proof (cases j)
      case 0
      with j r0 root show ?thesis by simp
    next
      case (Suc j')
      have sj: "Suc j' < length path" using j(1) Suc by simp
      from links sj have "parent (h ! (path ! Suc j')) = Some (path ! j')" by blast
      then have ps: "parent (h ! i) = Some (path ! j')" by (simp only: j(2) Suc)
      have z: "0 < length path" using p(1) by simp
      have "(path ! Suc j' = path ! 0) = (Suc j' = 0)"
        by (rule nth_eq_iff_index_eq[OF d sj z])
      then have "path ! Suc j' \<noteq> path ! 0" by simp
      then have ir: "i \<noteq> r" by (simp only: j(2) Suc r0 simp_thms)
      from ps ir show ?thesis by simp
    qed
  qed
  have eff: "\<forall>i < length h.
                 number_visits (?hs ! i)
                   = number_visits (h ! i) + (if i \<in> set (butlast path) then 1 else 0)
                 \<and> total_value (?hs ! i)
                   = (if i \<in> set (butlast path) then total_value (h ! i) - 1
                      else total_value (h ! i))
                 \<and> number_visits (h'' ! i) = number_visits (?hs ! i)
                 \<and> total_value (h'' ! i)
                   = (if i \<in> set path \<and> i \<noteq> r then total_value (?hs ! i) + (v + 1)
                      else total_value (?hs ! i))"
  proof (intro allI impI)
    fix i assume i: "i < length h"
    have s: "?hs ! i = (if i \<in> set (butlast path)
                        then (h ! i)\<lparr>number_visits := number_visits (h ! i) + 1,
                                      total_value := total_value (h ! i) - 1\<rparr>
                        else h ! i)"
      by (rule fold_virtual_loss_nth[OF db i])
    have ph: "parent (?hs ! i) = parent (h ! i)" by (simp add: fold_virtual_loss_fields)
    have il: "i < length ?hs" by (simp only: fold_virtual_loss_length i)
    note n0 = nth[rule_format, OF il]
    have "(i \<in> set path \<and> parent (h ! i) \<noteq> None) \<longleftrightarrow> (i \<in> set path \<and> i \<noteq> r)"
    proof (cases "i \<in> set path")
      case True
      from rootp[OF True] True show ?thesis by simp
    next
      case False
      then show ?thesis by simp
    qed
    then have c: "(i \<in> set (last path # ancestors ?hs (last path)) \<and> parent (?hs ! i) \<noteq> None)
                   \<longleftrightarrow> (i \<in> set path \<and> i \<noteq> r)"
      by (simp only: sp ph)
    have n: "h'' ! i =
                   (if i \<in> set path \<and> i \<noteq> r
                    then (?hs ! i)\<lparr>total_value := total_value (?hs ! i) + (v + 1)\<rparr>
                    else ?hs ! i)"
      using n0 by (simp only: c)
    have a1: "number_visits (?hs ! i)
                = number_visits (h ! i) + (if i \<in> set (butlast path) then 1 else 0)"
      unfolding s by simp
    have a2: "total_value (?hs ! i)
                = (if i \<in> set (butlast path) then total_value (h ! i) - 1 else total_value (h ! i))"
      unfolding s by simp
    have a3: "number_visits (h'' ! i) = number_visits (?hs ! i)"
      unfolding n by simp
    have a4: "total_value (h'' ! i)
                = (if i \<in> set path \<and> i \<noteq> r then total_value (?hs ! i) + (v + 1)
                   else total_value (?hs ! i))"
      unfolding n by simp
    from a1 a2 a3 a4 show "number_visits (?hs ! i)
                   = number_visits (h ! i) + (if i \<in> set (butlast path) then 1 else 0)
                 \<and> total_value (?hs ! i)
                   = (if i \<in> set (butlast path) then total_value (h ! i) - 1
                      else total_value (h ! i))
                 \<and> number_visits (h'' ! i) = number_visits (?hs ! i)
                 \<and> total_value (h'' ! i)
                   = (if i \<in> set path \<and> i \<noteq> r then total_value (?hs ! i) + (v + 1)
                      else total_value (?hs ! i))"
      by - (intro conjI, assumption+)
  qed
  have len: "length h'' = length h" using b(2) by simp
  show ?thesis
  proof (rule exI[of _ path], rule exI[of _ ?hs], rule exI[of _ h''], intro conjI)
    show "path \<noteq> []" by (rule p(1))
    show "hd path = r" by (rule p(2))
    show "selection_path h path" by (rule p(3))
    show "distinct path" by (rule d)
    show "select_leaf h r = Some (Inr (?hs, last path))" by (rule p(4))
    show "backup ?hs (last path) v = Some h''" by (rule b(1))
    show "length h'' = length h" by (rule len)
    show "\<forall>i < length h.
                 number_visits (?hs ! i)
                   = number_visits (h ! i) + (if i \<in> set (butlast path) then 1 else 0)
                 \<and> total_value (?hs ! i)
                   = (if i \<in> set (butlast path) then total_value (h ! i) - 1
                      else total_value (h ! i))
                 \<and> number_visits (h'' ! i) = number_visits (?hs ! i)
                 \<and> total_value (h'' ! i)
                   = (if i \<in> set path \<and> i \<noteq> r then total_value (?hs ! i) + (v + 1)
                      else total_value (?hs ! i))"
      by (rule eff)
  qed
qed



lemma example_tree_root: "parent (example_tree ! 0) = None"
  by (simp add: example_tree_def)

lemma example_read_values:
  "total_value (example_tree ! 0) = 0" "total_value (example_selected ! 0) = - 1"
  "total_value (example_backed_up ! 0) = - 1"
  "total_value (example_tree ! 1) = 1" "total_value (example_selected ! 1) = 0"
  "total_value (example_backed_up ! 1) = 0 + (0 + 1)"
  "total_value (example_tree ! 3) = 0" "total_value (example_selected ! 3) = 0"
  "total_value (example_backed_up ! 3) = 0 + (0 + 1)"
  "number_visits (example_backed_up ! 0) = 1" "number_visits (example_backed_up ! 1) = 1"
  "number_visits (example_backed_up ! 3) = 0"
  by (simp_all add: example_tree_def example_selected_def example_backed_up_def)


subsection \<open>The search driver\<close>

lemma search_read_total:
  assumes inv: "search_inv h" and pop: "populated h"
  shows "\<exists>h'. search_read play evaluate i 0 h = Some (Inr h')"
proof -
  from inv have t: "tree_heap h" and l0: "0 < length h"
    unfolding search_inv_def by blast+
  from select_leaf_path[OF t pop l0] obtain path where
    p: "path \<noteq> []"
      "select_leaf h 0 = Some (Inr (fold virtual_loss (butlast path) h, last path))"
      "\<forall>x \<in> set path. x < length h"
    by blast
  let ?h1 = "fold virtual_loss (butlast path) h"
  let ?leaf = "last path"
  obtain ps v where ev: "evaluate i (game_state (?h1 ! ?leaf)) = (ps, v)"
    by (cases "evaluate i (game_state (?h1 ! ?leaf))") auto
  have ll: "?leaf < length ?h1" using p(1,3) by simp
  have t2: "tree_heap (expand play ?leaf ps ?h1)"
    using t ll by (intro tree_heap_expand) simp_all
  have l2: "?leaf < length (expand play ?leaf ps ?h1)" using ll by simp
  from backup_fold[OF t2 l2, of v] obtain h' where
    "backup (expand play ?leaf ps ?h1) ?leaf v = Some h'" by blast
  with p(2) ev show ?thesis unfolding search_read_def by simp
qed

lemma read_effect_populated:
  assumes pop: "populated h" and re: "read_effect h path ps h'" and ps: "ps \<noteq> []"
  shows "populated h'"
proof -
  from re have len: "length h' = length h + length ps"
    and old: "\<forall>j < length h.
            is_expanded (h' ! j) = (is_expanded (h ! j) \<or> j = last path)
            \<and> children (h' ! j) =
                (if j = last path then map (\<lambda>k. (k, length h + k)) [0..<length ps]
                 else children (h ! j))"
    and new: "\<forall>k < length ps. \<not> is_expanded (h' ! (length h + k))"
    unfolding read_effect_def by blast+
  have "children (h' ! i) \<noteq> []" if i: "i < length h'" and e: "is_expanded (h' ! i)" for i
  proof (cases "i < length h")
    case True
    show ?thesis
    proof (cases "i = last path")
      case True
      with old \<open>i < length h\<close> ps show ?thesis by simp
    next
      case False
      with old True e have "is_expanded (h ! i)" "children (h' ! i) = children (h ! i)"
        by simp_all
      with pop True show ?thesis unfolding populated_def by simp
    qed
  next
    case False
    then obtain k where "i = length h + k" "k < length ps"
      using i len by (metis add_diff_inverse_nat nat_add_left_cancel_less)
    with new e show ?thesis by simp
  qed
  then show ?thesis unfolding populated_def by blast
qed

lemma sum_list_same:
  "\<forall>(m, d) \<in> set cs. f' d = f d \<Longrightarrow>
   (\<Sum>(m, d) \<leftarrow> cs. f' d) = (\<Sum>(m, d) \<leftarrow> cs. (f d :: nat))"
  by (induction cs) auto

lemma sum_list_bump:
  "distinct (map snd cs) \<Longrightarrow> c \<in> snd ` set cs \<Longrightarrow>
   \<forall>(m, d) \<in> set cs. f' d = f d + (if d = c then 1 else 0) \<Longrightarrow>
   (\<Sum>(m, d) \<leftarrow> cs. f' d) = (\<Sum>(m, d) \<leftarrow> cs. f d) + (1 :: nat)"
proof (induction cs)
  case Nil
  then show ?case by simp
next
  case (Cons x cs)
  obtain m0 d0 where x: "x = (m0, d0)" by (cases x)
  show ?case
  proof (cases "d0 = c")
    case True
    then have "c \<notin> snd ` set cs" using Cons.prems(1) x by auto
    have "\<forall>(m, d) \<in> set cs. f' d = f d"
    proof (clarify)
      fix m d assume md: "(m, d) \<in> set cs"
      then have "d \<noteq> c" using \<open>c \<notin> snd ` set cs\<close> by force
      moreover from md Cons.prems(3) have "f' d = f d + (if d = c then 1 else 0)" by auto
      ultimately show "f' d = f d" by simp
    qed
    from sum_list_same[OF this] Cons.prems(3) x True show ?thesis by simp
  next
    case False
    then have a: "c \<in> snd ` set cs" using Cons.prems(2) x by auto
    have b: "distinct (map snd cs)" using Cons.prems(1) by simp
    have c: "\<forall>(m, d) \<in> set cs. f' d = f d + (if d = c then 1 else 0)"
      using Cons.prems(3) by simp
    have "(\<Sum>(m, d) \<leftarrow> cs. f' d) = (\<Sum>(m, d) \<leftarrow> cs. f d) + 1"
      by (rule Cons.IH[OF b a c])
    with Cons.prems(3) x False show ?thesis by simp
  qed
qed

lemma sum_list_split_flag:
  "(\<Sum>(m, d) \<leftarrow> cs. f d + (if P d then 1 else 0))
     = (\<Sum>(m, d) \<leftarrow> cs. (f d :: nat)) + length (filter (\<lambda>(m, d). P d) cs)"
  by (induction cs) auto

lemma read_accounting_first:
  assumes inv: "search_inv h" and ne: "\<not> is_expanded (h ! 0)"
    and p: "path \<noteq> []" "hd path = 0" and sp: "selection_path h path"
    and re: "read_effect h path ps h'"
  shows "is_expanded (h' ! 0) \<and> number_visits (h' ! 0) = 0 \<and> visits_accounted h'"
proof -
  from p obtain rest where path: "path = 0 # rest" by (cases path) auto
  have "rest = []"
  proof (cases rest)
    case Nil
    then show ?thesis .
  next
    case (Cons c r)
    with sp path ne show ?thesis by simp
  qed
  with path have path0: "path = [0]" by simp
  from inv have l0: "0 < length h"
    and un: "\<forall>i < length h. \<not> is_expanded (h ! i) \<longrightarrow>
            children (h ! i) = [] \<and> number_visits (h ! i) = 0"
    unfolding search_inv_def by blast+
  from re l0 path0 have r0: "is_expanded (h' ! 0)"
    "children (h' ! 0) = map (\<lambda>k. (k, length h + k)) [0..<length ps]"
    "number_visits (h' ! 0) = number_visits (h ! 0)"
    unfolding read_effect_def by simp_all
  from re have new: "\<forall>k < length ps.
            \<not> is_expanded (h' ! (length h + k)) \<and> number_visits (h' ! (length h + k)) = 0"
    unfolding read_effect_def by blast
  have v0: "number_visits (h' ! 0) = 0" using r0(3) un l0 ne by simp
  have z0: "number_visits (h' ! c) + (if is_expanded (h' ! c) then 1 else 0) = (0::nat)"
    if "(m, c) \<in> set (children (h' ! 0))" for m c
  proof -
    from that obtain k where "k < length ps" "c = length h + k" unfolding r0(2) by auto
    with new show ?thesis by simp
  qed
  have z: "\<forall>(m, c) \<in> set (children (h' ! 0)).
          number_visits (h' ! c) + (if is_expanded (h' ! c) then 1 else 0) = (0::nat)"
    using z0 by blast
  have "(\<Sum>(m, c) \<leftarrow> children (h' ! 0).
             number_visits (h' ! c) + (if is_expanded (h' ! c) then 1 else 0))
        = (\<Sum>(m, c) \<leftarrow> children (h' ! 0). (0::nat))"
    using sum_list_same[of "children (h' ! 0)"
        "\<lambda>c. number_visits (h' ! c) + (if is_expanded (h' ! c) then 1 else 0)" "\<lambda>c. 0"] z
    by blast
  also have "\<dots> = 0" by (simp add: case_prod_beta)
  finally have "visits_accounted h'" unfolding visits_accounted_def using v0 by simp
  with r0(1) v0 show ?thesis by blast
qed

lemma read_accounting_later:
  assumes inv: "search_inv h" and e: "is_expanded (h ! 0)" and acc: "visits_accounted h"
    and p: "path \<noteq> []" "hd path = 0" and sp: "selection_path h path"
    and srt: "sorted_wrt (<) path" and bnd: "\<forall>x \<in> set path. x < length h"
    and re: "read_effect h path ps h'"
  shows "is_expanded (h' ! 0) \<and> number_visits (h' ! 0) = number_visits (h ! 0) + 1
         \<and> visits_accounted h'"
proof -
  from inv have t: "tree_heap h" and l0: "0 < length h"
    unfolding search_inv_def by blast+
  from p obtain rest0 where path0: "path = 0 # rest0" by (cases path) auto
  from sp e path0 obtain c rest where rest0: "rest0 = c # rest"
    by (cases rest0) auto
  have path: "path = 0 # c # rest" using path0 rest0 by simp
  from sp path obtain s where
    fm: "first_max (score (virtual_loss 0 h)) (map snd (children (h ! 0))) c s"
    by auto
  from first_max_mem[OF fm] have cmem: "c \<in> snd ` set (children (h ! 0))" by simp
  from t l0 have dist: "distinct (map snd (children (h ! 0)))"
    unfolding tree_heap_def by blast
  have ch: "0 < d \<and> d < length h \<and> parent (h ! d) = Some 0"
    if "(m, d) \<in> set (children (h ! 0))" for m d
    using tree_heap_child[OF t l0, of d] that by force
  have dpath: "distinct path" using srt by (rule sorted_wrt_less_distinct)
  from selection_path_expanded[OF sp] have
    be: "\<forall>x \<in> set (butlast path). is_expanded (h ! x)"
    and lu: "\<not> is_expanded (h ! last path)" by simp_all
  have b0: "0 \<in> set (butlast path)" unfolding path by simp
  have l0n: "last path \<noteq> 0"
  proof
    assume "last path = 0"
    with lu e show False by simp
  qed
  from re l0 b0 l0n have r0: "is_expanded (h' ! 0)"
    "children (h' ! 0) = children (h ! 0)"
    "number_visits (h' ! 0) = number_visits (h ! 0) + 1"
    unfolding read_effect_def using e by simp_all
  have old: "number_visits (h' ! d)
                = number_visits (h ! d) + (if d \<in> set (butlast path) then 1 else 0)
             \<and> is_expanded (h' ! d) = (is_expanded (h ! d) \<or> d = last path)"
    if "d < length h" for d
    using re that unfolding read_effect_def by simp
  have step: "number_visits (h' ! d) + (if is_expanded (h' ! d) then 1 else 0)
           = number_visits (h ! d) + (if is_expanded (h ! d) then 1 else 0)
             + (if d = c then 1 else 0)"
    if md: "(m, d) \<in> set (children (h ! 0))" for m d
  proof (cases "d = c")
    case True
    from ch[OF md] have dl: "d < length h" and d0: "0 < d" by simp_all
    show ?thesis
    proof (cases rest)
      case Nil
      then have "last path = c" "butlast path = [0]" using path by simp_all
      with old[OF dl] True d0 lu show ?thesis by simp
    next
      case (Cons r rs)
      then have cb: "c \<in> set (butlast path)" using path by simp
      have "c \<noteq> last path" using be cb lu by auto
      with old[OF dl] True cb be show ?thesis by simp
    qed
  next
    case False
    from ch[OF md] have dl: "d < length h" and d0: "0 < d"
      and pd: "parent (h ! d) = Some 0" by simp_all
    have "d \<notin> set path"
    proof
      assume "d \<in> set path"
      then obtain k where k: "k < length path" "path ! k = d"
        by (auto simp: in_set_conv_nth)
      show False
      proof (cases k)
        case 0
        with k path d0 show False by simp
      next
        case (Suc k')
        from selection_path_parent[OF t sp bnd, of k'] k Suc
        have "parent (h ! d) = Some (path ! k')" by simp
        with pd have "path ! k' = path ! 0" using path by simp
        moreover have "k' < length path" using k Suc by simp
        moreover have "0 < length path" using p(1) by simp
        ultimately have "k' = 0"
          using dpath nth_eq_iff_index_eq[of path k' 0] by blast
        with Suc k path False show False by simp
      qed
    qed
    then have "d \<notin> set (butlast path)" "d \<noteq> last path"
      using in_set_butlastD[of d path] last_in_set[OF p(1)] by auto
    with old[OF dl] False show ?thesis by simp
  qed
  have st: "\<forall>(m, d) \<in> set (children (h ! 0)).
            number_visits (h' ! d) + (if is_expanded (h' ! d) then 1 else 0)
              = number_visits (h ! d) + (if is_expanded (h ! d) then 1 else 0)
                + (if d = c then 1 else 0)"
    using step by blast
  have "(\<Sum>(m, d) \<leftarrow> children (h ! 0).
             number_visits (h' ! d) + (if is_expanded (h' ! d) then 1 else 0))
        = (\<Sum>(m, d) \<leftarrow> children (h ! 0).
             number_visits (h ! d) + (if is_expanded (h ! d) then 1 else 0)) + 1"
    by (rule sum_list_bump[of "children (h ! 0)" c
          "\<lambda>d. number_visits (h' ! d) + (if is_expanded (h' ! d) then 1 else 0)"
          "\<lambda>d. number_visits (h ! d) + (if is_expanded (h ! d) then 1 else 0)",
          OF dist cmem st])
  with acc r0 have "visits_accounted h'" unfolding visits_accounted_def by simp
  with r0 show ?thesis by blast
qed

lemma populated_initial: "populated [new_node g None 0]"
  by (simp add: populated_def new_node_def)

lemma search_reads_total:
  assumes ev: "\<forall>i g. fst (evaluate i g) \<noteq> []"
  shows "\<exists>h. search_reads play evaluate g n = Some (Inr h) \<and> search_inv h \<and> populated h
           \<and> (n = 0 \<longrightarrow> \<not> is_expanded (h ! 0))
           \<and> (0 < n \<longrightarrow> is_expanded (h ! 0) \<and> number_visits (h ! 0) = n - 1
                 \<and> visits_accounted h)"
proof (induction n)
  case 0
  show ?case
    using search_inv_initial[of g] populated_initial[of g] by (simp add: new_node_def)
next
  case (Suc n)
  then obtain h where h: "search_reads play evaluate g n = Some (Inr h)"
    and inv: "search_inv h" and pop: "populated h"
    and z: "n = 0 \<longrightarrow> \<not> is_expanded (h ! 0)"
    and pos: "0 < n \<longrightarrow> is_expanded (h ! 0) \<and> number_visits (h ! 0) = n - 1
                 \<and> visits_accounted h"
    by blast
  from search_read_total[OF inv pop, of play evaluate n] obtain h' where
    rd: "search_read play evaluate n 0 h = Some (Inr h')" by blast
  from search_read_effect[OF inv rd] obtain path ps v where
    p: "path \<noteq> []" "hd path = 0" and sp: "selection_path h path"
    and srt: "sorted_wrt (<) path" and bnd: "\<forall>x \<in> set path. x < length h"
    and e: "evaluate n (game_state (h ! last path)) = (ps, v)"
    and re: "read_effect h path ps h'" and t': "tree_heap h'"
    by blast
  have ps: "ps \<noteq> []" using ev e by (metis fst_conv)
  have inv': "search_inv h'" by (rule read_effect_inv[OF inv sp re t'])
  have pop': "populated h'" by (rule read_effect_populated[OF pop re ps])
  have acc: "is_expanded (h' ! 0) \<and> number_visits (h' ! 0) = Suc n - 1 \<and> visits_accounted h'"
  proof (cases "n = 0")
    case True
    with z have "\<not> is_expanded (h ! 0)" by simp
    from read_accounting_first[OF inv this p sp re] True show ?thesis by simp
  next
    case False
    with pos have a: "is_expanded (h ! 0)" "number_visits (h ! 0) = n - 1" "visits_accounted h"
      by simp_all
    from read_accounting_later[OF inv a(1) a(3) p sp srt bnd re] a(2) False
    show ?thesis by simp
  qed
  have "search_reads play evaluate g (Suc n) = Some (Inr h')" using h rd by simp
  with inv' pop' acc show ?case by auto
qed

text \<open>
  C2 (amended). For every call of the search driver with \<open>num_reads = N \<ge> 1\<close> and an
  evaluator that returns at least one prior on every call, the search returns, and the
  returned pair is the root's child with the highest visit count together with its move
  index, the first such entry in the order of the children mapping. The visit count of
  the root is \<open>N - 1\<close>, and the sum of the visit counts over all of the root's children
  is \<open>N - 1\<close> minus the number of the root's children that are expanded.
\<close>

theorem UCT_search_spec:
  assumes "\<forall>i g. fst (evaluate i g) \<noteq> []" and "1 \<le> N"
  shows "\<exists>move child h. UCT_search play evaluate g N = Some (Inr ((move, child), h))
           \<and> search_reads play evaluate g N = Some (Inr h)
           \<and> first_max (\<lambda>item. Inr (number_visits (h ! snd item))) (children (h ! 0))
                (move, child) (number_visits (h ! child))
           \<and> number_visits (h ! 0) = N - 1
           \<and> children_visits h 0 + expanded_children h 0 = N - 1"
proof -
  from search_reads_total[OF assms(1), of play g N] assms(2) obtain h where
    h: "search_reads play evaluate g N = Some (Inr h)"
    and inv: "search_inv h" and pop: "populated h"
    and e: "is_expanded (h ! 0)" and v: "number_visits (h ! 0) = N - 1"
    and acc: "visits_accounted h"
    by auto
  from inv have l0: "0 < length h" unfolding search_inv_def by blast
  from pop e l0 have ne: "children (h ! 0) \<noteq> []" unfolding populated_def by blast
  let ?key = "\<lambda>item. Inr (number_visits (h ! snd item)) :: error + nat"
  have "\<forall>x \<in> set (children (h ! 0)). \<exists>k. ?key x = Inr k" by simp
  from py_max_first_max[OF ne this] obtain item ky where
    pm: "py_max ?key (children (h ! 0)) = Inr item"
    and fm: "first_max ?key (children (h ! 0)) item ky"
    by blast
  obtain move child where item: "item = (move, child)" by (cases item)
  from fm have "?key item = Inr ky" unfolding first_max_def by blast
  with item have ky: "ky = number_visits (h ! child)" by simp
  have u: "UCT_search play evaluate g N = Some (Inr ((move, child), h))"
    unfolding UCT_search_def using h pm item by simp
  have "children_visits h 0 + expanded_children h 0 = number_visits (h ! 0)"
    using acc unfolding visits_accounted_def children_visits_def expanded_children_def
    by (simp add: sum_list_split_flag)
  with u h fm item ky v show ?thesis by auto
qed

lemma example_evaluate_priors: "\<forall>i g. fst (example_evaluate i g) \<noteq> []"
  by (simp add: example_evaluate_def)

theorem UCT_search_spec_witness:
  "(\<forall>i g. fst (example_evaluate i g) \<noteq> []) \<and> (1::nat) \<le> 3
   \<and> (\<exists>move child h.
         UCT_search GameState_play example_evaluate () 3 = Some (Inr ((move, child), h))
         \<and> number_visits (h ! 0) = 3 - 1
         \<and> children_visits h 0 + expanded_children h 0 = 3 - 1)"
proof -
  have n: "(1::nat) \<le> 3" by simp
  from UCT_search_spec[OF example_evaluate_priors n, of GameState_play "()"]
  obtain move child h where
    "UCT_search GameState_play example_evaluate () 3 = Some (Inr ((move, child), h))"
    "number_visits (h ! 0) = 3 - 1"
    "children_visits h 0 + expanded_children h 0 = 3 - 1"
    by blast
  then show ?thesis using example_evaluate_priors n by blast
qed

text \<open>
  The claim as stated says that the visit counts of the root's children sum to \<open>N\<close>.
  With the evaluator \<open>example_evaluate\<close> the sum is 0 after one pass and 1 after three.
\<close>

theorem UCT_search_visits_counterexample:
  "UCT_search GameState_play example_evaluate () 1 = Some (Inr ((0, 1), example_reads1))
   \<and> children_visits example_reads1 0 = 0
   \<and> UCT_search GameState_play example_evaluate () 3 = Some (Inr ((0, 1), example_reads3))
   \<and> children_visits example_reads3 0 = 1"
proof -
  have a: "search_reads GameState_play example_evaluate () 1 = Some (Inr example_reads1)"
    using example_search_reads1 by simp
  have b: "search_reads GameState_play example_evaluate () 3 = Some (Inr example_reads3)"
    using example_search_reads3 by (simp add: numeral_3_eq_3)
  have "UCT_search GameState_play example_evaluate () 1 = Some (Inr ((0, 1), example_reads1))"
    unfolding UCT_search_def a by (simp add: example_reads1_def)
  moreover have
    "UCT_search GameState_play example_evaluate () 3 = Some (Inr ((0, 1), example_reads3))"
    unfolding UCT_search_def b by (simp add: example_reads3_def)
  moreover have "children_visits example_reads1 0 = 0"
    by (simp add: children_visits_def example_reads1_def)
  moreover have "children_visits example_reads3 0 = 1"
    by (simp add: children_visits_def example_reads3_def)
  ultimately show ?thesis by blast
qed

section \<open>Properties of the target computation\<close>

lemma rows_concat:
  "length xss = r \<Longrightarrow> \<forall>xs \<in> set xss. length xs = c \<Longrightarrow> rows c r (concat xss) = xss"
  by (induction xss arbitrary: r) auto

lemma np_max_Max: "xs \<noteq> [] \<Longrightarrow> np_max xs = Inr (Max (set xs))"
proof (cases xs)
  case Nil
  assume "xs \<noteq> []"
  with Nil show ?thesis by simp
next
  case (Cons y ys)
  have "fold max ys y = Max (set (y # ys))" by (rule Max.set_eq_fold[symmetric])
  with Cons show ?thesis by simp
qed

lemma argmax_loop_first:
  "first_argmax pre best \<Longrightarrow> bv = pre ! best \<Longrightarrow> i = length pre \<Longrightarrow>
   first_argmax (pre @ xs) (argmax_loop xs i best bv)"
proof (induction xs arbitrary: pre best bv i)
  case Nil
  then show ?case by simp
next
  case (Cons x xs)
  from Cons.prems(1) have b: "best < length pre"
    and le: "\<forall>m < length pre. pre ! m \<le> pre ! best"
    and lt: "\<forall>m < best. pre ! m < pre ! best"
    unfolding first_argmax_def by blast+
  show ?case
  proof (cases "x > bv")
    case True
    have "first_argmax (pre @ [x]) (length pre)"
      unfolding first_argmax_def
    proof (intro conjI allI impI)
      show "length pre < length (pre @ [x])" by simp
    next
      fix m assume "m < length (pre @ [x])"
      then have "m < length pre \<or> m = length pre" by auto
      then show "(pre @ [x]) ! m \<le> (pre @ [x]) ! length pre"
        using le True Cons.prems(2) by (auto simp: nth_append intro: order_trans less_imp_le)
    next
      fix m assume m: "m < length pre"
      then have "pre ! m \<le> bv" using le Cons.prems(2) by simp
      with True m show "(pre @ [x]) ! m < (pre @ [x]) ! length pre"
        by (simp add: nth_append)
    qed
    from Cons.IH[OF this, of x "Suc i"] True Cons.prems(3) show ?thesis by simp
  next
    case False
    have "first_argmax (pre @ [x]) best"
      unfolding first_argmax_def
    proof (intro conjI allI impI)
      show "best < length (pre @ [x])" using b by simp
    next
      fix m assume "m < length (pre @ [x])"
      then have "m < length pre \<or> m = length pre" by auto
      then show "(pre @ [x]) ! m \<le> (pre @ [x]) ! best"
        using le False Cons.prems(2) b by (auto simp: nth_append)
    next
      fix m assume m: "m < best"
      with lt b show "(pre @ [x]) ! m < (pre @ [x]) ! best"
        by (simp add: nth_append)
    qed
    from Cons.IH[OF this, of bv "Suc i"] False Cons.prems(2,3) b show ?thesis
      by (simp add: nth_append)
  qed
qed

lemma np_argmax_first:
  assumes "xs \<noteq> []"
  shows "\<exists>j. np_argmax xs = Inr j \<and> first_argmax xs j"
proof -
  from assms obtain y ys where xs: "xs = y # ys" by (cases xs) auto
  have "first_argmax [y] 0" by (simp add: first_argmax_def)
  from argmax_loop_first[OF this, of y 1 ys] xs show ?thesis by simp
qed

lemma map_raising_Inr:
  "\<forall>x \<in> set xs. f x = Inr (g x) \<Longrightarrow> map_raising f xs = Inr (map g xs)"
  by (induction xs) auto

lemma map2_map_map: "map2 h (map f xs) (map g xs) = map (\<lambda>x. h (f x) (g x)) xs"
  by (induction xs) auto

lemma length_concat_uniform:
  "\<forall>xs \<in> set xss. length xs = c \<Longrightarrow> length (concat xss) = length xss * c"
  by (induction xss) auto

lemma np_argmax_loop: "xs \<noteq> [] \<Longrightarrow> np_argmax xs = Inr (argmax_loop (tl xs) 1 0 (hd xs))"
  by (cases xs) simp_all

lemma adi_targets_eq:
  assumes a: "actions \<noteq> []" and b: "batch_size = length X_batch" and c: "X_batch \<noteq> []"
  shows "adi_targets actions step_from to_one_hot_cube predict_value batch_size X_batch =
     Inr (map (\<lambda>X_i. Max (set (map (target_total step_from to_one_hot_cube predict_value X_i) actions)))
            X_batch,
          map (\<lambda>X_i. np_eye_row (length actions)
                   (argmax_loop
                      (tl (map (target_total step_from to_one_hot_cube predict_value X_i) actions)) 1 0
                      (hd (map (target_total step_from to_one_hot_cube predict_value X_i) actions))))
            X_batch)"
proof -
  let ?R = "\<lambda>X_i. map (\<lambda>action. snd (step_from X_i action)) actions"
  let ?S = "\<lambda>X_i. map (\<lambda>action. to_one_hot_cube (fst (step_from X_i action))) actions"
  let ?V = "\<lambda>X_i. map predict_value (?S X_i)"
  let ?T = "\<lambda>X_i. map (target_total step_from to_one_hot_cube predict_value X_i) actions"
  have v: "map predict_value (concat (map ?S X_batch)) = concat (map ?V X_batch)"
    by (simp add: map_concat comp_def)
  have u: "\<forall>xs \<in> set (map ?V X_batch). length xs = length actions" by simp
  have len: "length (concat (map ?V X_batch)) = batch_size * length actions"
    using length_concat_uniform[OF u] b by simp
  have rs: "rows (length actions) batch_size (concat (map ?V X_batch)) = map ?V X_batch"
    using rows_concat[OF _ u, of batch_size] b by simp
  have reshape: "np_reshape (map predict_value (concat (map ?S X_batch))) batch_size
                   (length actions) = Inr (map ?V X_batch)"
    unfolding v np_reshape_def using len rs by simp
  have row: "map2 (+) (?R X_i) (?V X_i) = ?T X_i" for X_i
  proof -
    have "?V X_i = map (\<lambda>action. predict_value (to_one_hot_cube (fst (step_from X_i action))))
                     actions"
      by simp
    then have "map2 (+) (?R X_i) (?V X_i)
                 = map (\<lambda>action. snd (step_from X_i action)
                          + predict_value (to_one_hot_cube (fst (step_from X_i action))))
                     actions"
      by (simp only: map2_map_map)
    also have "\<dots> = ?T X_i" by (simp add: target_total_def)
    finally show ?thesis .
  qed
  have tot: "map2 (map2 (+)) (map ?R X_batch) (map ?V X_batch) = map ?T X_batch"
    using map2_map_map[of "map2 (+)" ?R X_batch ?V] row by simp
  have add: "np_add (map ?R X_batch) (map ?V X_batch) = Inr (map ?T X_batch)"
    using tot c by (simp add: np_add_def)
  have ne: "\<forall>xs \<in> set (map ?T X_batch). xs \<noteq> []" using a by simp
  have mx: "map_raising np_max (map ?T X_batch)
              = Inr (map (\<lambda>xs. Max (set xs)) (map ?T X_batch))"
    by (rule map_raising_Inr) (use ne np_max_Max in blast)
  have am: "map_raising np_argmax (map ?T X_batch)
              = Inr (map (\<lambda>xs. argmax_loop (tl xs) 1 0 (hd xs)) (map ?T X_batch))"
    by (rule map_raising_Inr) (use ne np_argmax_loop in blast)
  have "adi_targets actions step_from to_one_hot_cube predict_value batch_size X_batch
          = Inr (map (\<lambda>xs. Max (set xs)) (map ?T X_batch),
                 map (np_eye_row (length actions))
                   (map (\<lambda>xs. argmax_loop (tl xs) 1 0 (hd xs)) (map ?T X_batch)))"
    by (simp only: adi_targets_def Let_def reshape sum.case add mx am)
  then show ?thesis by (simp only: map_map comp_def)
qed

lemma first_argmax_Max:
  assumes "first_argmax ys j"
  shows "ys ! j = Max (set ys)"
proof -
  from assms have j: "j < length ys" and le: "\<forall>m < length ys. ys ! m \<le> ys ! j"
    unfolding first_argmax_def by blast+
  have "Max (set ys) = ys ! j"
  proof (rule Max_eqI)
    show "finite (set ys)" by simp
    show "ys ! j \<in> set ys" using j by simp
    show "y \<le> ys ! j" if "y \<in> set ys" for y
      using that le by (auto simp: in_set_conv_nth)
  qed
  then show ?thesis by simp
qed

text \<open>
  C1.  For a non-empty list of moves and a non-empty batch of \<open>batch_size\<close> states the
  target computation returns one value target and one policy target per state.  The value
  target of a state is the maximum over all moves of the reward of the move plus the
  predicted value of the state it leads to.  The policy target is the one-hot vector with
  one entry per move (\<open>length actions\<close> of them, the 12 moves of the cube) that marks a
  move achieving this maximum, and among several such moves the one with the least index.
  An empty batch raises \<^verbatim>\<open>ValueError\<close> instead.
\<close>

theorem adi_targets_spec:
  assumes "actions \<noteq> []" and "batch_size = length X_batch" and "X_batch \<noteq> []"
  shows "\<exists>Y_v Y_p.
           adi_targets actions step_from to_one_hot_cube predict_value batch_size X_batch
             = Inr (Y_v, Y_p)
           \<and> length Y_v = length X_batch \<and> length Y_p = length X_batch
           \<and> (\<forall>i < length X_batch.
                 Y_v ! i = Max (target_total step_from to_one_hot_cube predict_value
                                  (X_batch ! i) ` set actions)
                 \<and> (\<exists>j. first_argmax
                           (map (target_total step_from to_one_hot_cube predict_value
                                   (X_batch ! i)) actions) j
                        \<and> target_total step_from to_one_hot_cube predict_value (X_batch ! i)
                            (actions ! j) = Y_v ! i
                        \<and> length (Y_p ! i) = length actions
                        \<and> Y_p ! i = map (\<lambda>m. if m = j then 1 else 0) [0..<length actions]))
           \<and> adi_targets actions step_from to_one_hot_cube predict_value 0 [] = Inl ValueError"
proof -
  let ?T = "\<lambda>X_i. map (target_total step_from to_one_hot_cube predict_value X_i) actions"
  let ?Y_v = "map (\<lambda>X_i. Max (set (?T X_i))) X_batch"
  let ?Y_p = "map (\<lambda>X_i. np_eye_row (length actions)
                   (argmax_loop (tl (?T X_i)) 1 0 (hd (?T X_i)))) X_batch"
  have eq: "adi_targets actions step_from to_one_hot_cube predict_value batch_size X_batch
              = Inr (?Y_v, ?Y_p)"
    by (rule adi_targets_eq[OF assms])
  have row: "?Y_v ! i = Max (target_total step_from to_one_hot_cube predict_value
                                  (X_batch ! i) ` set actions)
                 \<and> (\<exists>j. first_argmax (?T (X_batch ! i)) j
                        \<and> target_total step_from to_one_hot_cube predict_value (X_batch ! i)
                            (actions ! j) = ?Y_v ! i
                        \<and> length (?Y_p ! i) = length actions
                        \<and> ?Y_p ! i = map (\<lambda>m. if m = j then 1 else 0) [0..<length actions])"
    if i: "i < length X_batch" for i
  proof -
    let ?row = "?T (X_batch ! i)"
    have ne: "?row \<noteq> []" using assms(1) by simp
    from np_argmax_first[OF ne] np_argmax_loop[OF ne]
    have fa: "first_argmax ?row (argmax_loop (tl ?row) 1 0 (hd ?row))" by auto
    let ?j = "argmax_loop (tl ?row) 1 0 (hd ?row)"
    have jl: "?j < length actions" using fa unfolding first_argmax_def by simp
    have v: "?Y_v ! i = Max (set ?row)" using i by simp
    have "?row ! ?j = Max (set ?row)" using fa by (rule first_argmax_Max)
    then have a: "target_total step_from to_one_hot_cube predict_value (X_batch ! i)
                    (actions ! ?j) = ?Y_v ! i"
      using jl v by simp
    have p: "?Y_p ! i = map (\<lambda>m. if m = ?j then 1 else 0) [0..<length actions]"
      using i by (simp add: np_eye_row_def)
    have pl: "length (?Y_p ! i) = length actions"
      using i by (simp add: np_eye_row_def)
    have "?Y_v ! i = Max (target_total step_from to_one_hot_cube predict_value
                                  (X_batch ! i) ` set actions)"
      using v by simp
    with fa a p pl show ?thesis by blast
  qed
  have empty: "adi_targets actions step_from to_one_hot_cube predict_value 0 [] = Inl ValueError"
    by (simp add: adi_targets_def np_reshape_def np_add_def)
  have "length ?Y_v = length X_batch" "length ?Y_p = length X_batch" by simp_all
  with eq row empty show ?thesis by blast
qed

lemma adi_targets_example:
  "adi_targets [0, 1, 2] example_step (\<lambda>raw. raw) example_predict 2 [10, 5]
     = Inr ([1, 1], [[0, 1, 0], [0, 1, 0]])"
  by (simp add: adi_targets_def np_reshape_def np_add_def np_eye_row_def numeral_2_eq_2 upt_rec
      example_step_def example_predict_def)

theorem adi_targets_spec_witness:
  "[0, 1, 2 :: nat] \<noteq> [] \<and> (2 :: nat) = length [10, 5 :: nat] \<and> [10, 5 :: nat] \<noteq> []
   \<and> (\<exists>Y_v Y_p. adi_targets [0, 1, 2] example_step (\<lambda>raw. raw) example_predict 2 [10, 5]
                    = Inr (Y_v, Y_p)
          \<and> length Y_v = length [10, 5 :: nat] \<and> length Y_p = length [10, 5 :: nat])
   \<and> adi_targets [0, 1, 2] example_step (\<lambda>raw. raw) example_predict 2 [10, 5]
       = Inr ([1, 1], [[0, 1, 0], [0, 1, 0]])"
proof -
  have a: "[0, 1, 2 :: nat] \<noteq> []" by simp
  have b: "(2 :: nat) = length [10, 5 :: nat]" by simp
  have c: "[10, 5 :: nat] \<noteq> []" by simp
  from adi_targets_spec[OF a b c, of example_step "\<lambda>raw. raw" example_predict]
  obtain Y_v Y_p where
    "adi_targets [0, 1, 2] example_step (\<lambda>raw. raw) example_predict 2 [10, 5] = Inr (Y_v, Y_p)"
    "length Y_v = length [10, 5 :: nat]" "length Y_p = length [10, 5 :: nat]"
    by blast
  then show ?thesis using a b c adi_targets_example by blast
qed

section \<open>Properties of dataset generation and scrambling\<close>

lemma candidates_nonempty: "2 \<le> n \<Longrightarrow> candidates n previous \<noteq> []"
proof -
  assume n: "2 \<le> n"
  show ?thesis
  proof (cases "previous = Some 0")
    case True
    then have "1 \<in> set (candidates n previous)" using n by (simp add: candidates_def)
    then show ?thesis by auto
  next
    case False
    then have "0 \<in> set (candidates n previous)" using n by (auto simp add: candidates_def)
    then show ?thesis by auto
  qed
qed

lemma inverse_of_last_Cons:
  "inverse_of_last inv_idx previous (a # as) = inverse_of_last inv_idx (Some (inv_idx a)) as"
  by (simp add: inverse_of_last_def)

lemma gen_steps_run:
  assumes n: "2 \<le> num_actions env"
  shows "gen_steps env rng ss (c, previous, X, W, t) =
     Inr (fold (\<lambda>a c. cube_step env c a)
            (scramble_moves (num_actions env) (inverse_action_idx env) rng t previous (length ss)) c,
          inverse_of_last (inverse_action_idx env) previous
            (scramble_moves (num_actions env) (inverse_action_idx env) rng t previous (length ss)),
          X @ map (state_one_hot env)
                (states_along (cube_step env) c
                   (scramble_moves (num_actions env) (inverse_action_idx env) rng t previous
                      (length ss))),
          W @ map (\<lambda>shuffle. 1 / (real shuffle + 1)) ss,
          t + length ss)"
proof (induction ss arbitrary: c previous X W t)
  case Nil
  then show ?case by (simp add: inverse_of_last_def)
next
  case (Cons s ss)
  have ne: "candidates (num_actions env) previous \<noteq> []" by (rule candidates_nonempty[OF n])
  show ?case
    by (simp add: random_choice_def ne Let_def Cons.IH inverse_of_last_Cons)
qed

lemma scramble_steps_run:
  assumes n: "2 \<le> num_actions env"
  shows "scramble_steps env rng ss (c, previous, t) =
     Inr (fold (\<lambda>a c. cube_step env c a)
            (scramble_moves (num_actions env) (inverse_action_idx env) rng t previous (length ss)) c,
          inverse_of_last (inverse_action_idx env) previous
            (scramble_moves (num_actions env) (inverse_action_idx env) rng t previous (length ss)),
          t + length ss)"
proof (induction ss arbitrary: c previous t)
  case Nil
  then show ?case by (simp add: inverse_of_last_def)
next
  case (Cons s ss)
  have ne: "candidates (num_actions env) previous \<noteq> []" by (rule candidates_nonempty[OF n])
  show ?case
    by (simp add: random_choice_def ne Let_def Cons.IH inverse_of_last_Cons)
qed

lemma length_scramble_moves [simp]:
  "length (scramble_moves n inv_idx rng t previous k) = k"
  by (induction k arbitrary: t previous) (simp_all add: Let_def)

lemma length_states_along [simp]: "length (states_along step c moves) = length moves"
  by (induction moves arbitrary: c) simp_all

lemma length_sequence_states [simp]: "length (sequence_states env rng k t) = k"
  by (simp add: sequence_states_def)

lemma states_along_nth:
  "s < length moves \<Longrightarrow>
   states_along step c moves ! s = fold (\<lambda>a c. step c a) (take (Suc s) moves) c"
proof (induction moves arbitrary: c s)
  case Nil
  then show ?case by simp
next
  case (Cons a as)
  show ?case
  proof (cases s)
    case 0
    then show ?thesis by simp
  next
    case (Suc s')
    with Cons.prems have "s' < length as" by simp
    from Cons.IH[OF this] Suc show ?thesis by simp
  qed
qed

lemma sequence_states_nth:
  "s < k \<Longrightarrow>
   sequence_states env rng k t ! s =
     state_one_hot env
       (fold (\<lambda>a c. cube_step env c a)
          (take (Suc s) (scramble_moves (num_actions env) (inverse_action_idx env) rng t None k))
          (solved_cube env))"
  by (simp add: sequence_states_def states_along_nth)

lemma gen_sequences_run:
  assumes n: "2 \<le> num_actions env"
  shows "gen_sequences env rng k its (X, W, t) =
     Inr (X @ concat (map (\<lambda>i. sequence_states env rng k (t + i * k)) [0..<length its]),
          W @ concat (map (\<lambda>i. map (\<lambda>shuffle. 1 / (real shuffle + 1)) [0..<k]) [0..<length its]),
          t + length its * k)"
proof (induction its arbitrary: X W t)
  case Nil
  then show ?case by simp
next
  case (Cons it its)
  have a: "map (\<lambda>i. sequence_states env rng k (t + i * k)) [0..<Suc (length its)]
             = sequence_states env rng k t
               # map (\<lambda>i. sequence_states env rng k (t + k + i * k)) [0..<length its]"
    by (simp add: map_upt_Suc add.assoc del: upt_Suc)
  have b: "map (\<lambda>i. map (\<lambda>shuffle. 1 / (real shuffle + 1)) [0..<k]) [0..<Suc (length its)]
             = map (\<lambda>shuffle. 1 / (real shuffle + 1)) [0..<k]
               # map (\<lambda>i. map (\<lambda>shuffle. 1 / (real shuffle + 1)) [0..<k]) [0..<length its]"
    by (simp add: map_upt_Suc del: upt_Suc)
  have "gen_sequences env rng k (it # its) (X, W, t)
          = gen_sequences env rng k its
              (X @ sequence_states env rng k t,
               W @ map (\<lambda>shuffle. 1 / (real shuffle + 1)) [0..<k], t + k)"
    by (simp add: gen_steps_run[OF n] sequence_states_def)
  also note Cons.IH
  finally show ?case
    by (simp only: a b length_Cons concat.simps append_assoc mult_Suc add.assoc)
qed

lemma nth_concat_uniform:
  "\<forall>xs \<in> set xss. length xs = k \<Longrightarrow> i < length xss \<Longrightarrow> s < k \<Longrightarrow>
   concat xss ! (i * k + s) = xss ! i ! s"
proof (induction xss arbitrary: i)
  case Nil
  then show ?case by simp
next
  case (Cons x xss)
  from Cons.prems(1) have lx: "length x = k" and rest: "\<forall>xs \<in> set xss. length xs = k" by simp_all
  show ?case
  proof (cases i)
    case 0
    with lx Cons.prems(3) show ?thesis by (simp add: nth_append)
  next
    case (Suc i')
    with Cons.prems(2) have "i' < length xss" by simp
    from Cons.IH[OF rest this Cons.prems(3)] Suc lx show ?thesis
      by (simp add: nth_append add.assoc)
  qed
qed

lemma nth_concat_div_mod:
  assumes "\<forall>xs \<in> set xss. length xs = k" and "q < length xss * k"
  shows "concat xss ! q = xss ! (q div k) ! (q mod k)"
proof -
  from assms(2) have k: "0 < k" by (cases k) simp_all
  from assms(2) have i: "q div k < length xss" by (rule less_mult_imp_div_less)
  from k have s: "q mod k < k" by simp
  from nth_concat_uniform[OF assms(1) i s] show ?thesis by simp
qed

lemma candidates_set: "set (candidates n previous) = {0..<n} - set_option previous"
  by (cases previous) (auto simp add: candidates_def)

lemma candidates_distinct: "distinct (candidates n previous)"
  by (simp add: candidates_def)

lemma candidates_None: "candidates n None = [0..<n]"
  by (simp add: candidates_def)

lemma choice_in_set: "xs \<noteq> [] \<Longrightarrow> xs ! (r mod length xs) \<in> set xs"
  by simp

lemma previous_at_Cons:
  "previous_at inv_idx previous (a # rest) (Suc j) = previous_at inv_idx (Some (inv_idx a)) rest j"
  by (cases j) (simp_all add: previous_at_def)

lemma scramble_moves_nth:
  "j < k \<Longrightarrow>
   scramble_moves n inv_idx rng t previous k ! j =
     candidates n (previous_at inv_idx previous (scramble_moves n inv_idx rng t previous k) j)
       ! (rng (t + j)
            mod length (candidates n
                          (previous_at inv_idx previous (scramble_moves n inv_idx rng t previous k) j)))"
proof (induction k arbitrary: t previous j)
  case 0
  then show ?case by simp
next
  case (Suc k)
  show ?case
  proof (cases j)
    case 0
    then show ?thesis by (simp add: Let_def previous_at_def)
  next
    case (Suc j')
    with Suc.prems have "j' < k" by simp
    from Suc.IH[OF this] Suc show ?thesis
      by (simp add: Let_def previous_at_Cons)
  qed
qed

lemma scramble_moves_member:
  assumes "2 \<le> n" and "j < k"
  shows "scramble_moves n inv_idx rng t previous k ! j
           \<in> set (candidates n
                    (previous_at inv_idx previous (scramble_moves n inv_idx rng t previous k) j))"
  using scramble_moves_nth[OF assms(2), of n inv_idx rng t previous]
    choice_in_set[OF candidates_nonempty[OF assms(1)]]
  by simp

lemma scramble_moves_no_inverse:
  assumes "2 \<le> n" and "Suc j < k"
  shows "scramble_moves n inv_idx rng t previous k ! Suc j
           \<noteq> inv_idx (scramble_moves n inv_idx rng t previous k ! j)"
  using scramble_moves_member[OF assms, of inv_idx rng t previous]
  by (simp add: candidates_set previous_at_def)

lemma candidates_bij:
  "bij_betw (\<lambda>r. candidates n previous ! r) {..<length (candidates n previous)}
     ({0..<n} - set_option previous)"
  by (rule bij_betw_nth) (simp_all add: candidates_distinct candidates_set)

lemma example_candidates:
  "candidates 4 None = [0, 1, 2, 3]"
  "candidates 4 (Some 0) = [1, 2, 3]"
  "candidates 4 (Some (Suc 0)) = [0, 2, 3]"
  "candidates 4 (Some 2) = [0, 1, 3]"
  "candidates 4 (Some 3) = [0, 1, 2]"
  by (simp_all add: candidates_def upt_rec)

lemma example_env_simps:
  "num_actions example_env = 4" "solved_cube example_env = []"
  "cube_step example_env c a = c @ [a]"
  "inverse_action_idx example_env 0 = 1" "inverse_action_idx example_env 1 = 0"
  "inverse_action_idx example_env 2 = 3" "inverse_action_idx example_env 3 = 2"
  "state_one_hot example_env c = c"
  by (simp_all add: example_env_def)

lemma example_choices:
  "random_choice example_rng 0 (candidates 4 None) = Inr 1"
  "random_choice example_rng (Suc 0) (candidates 4 (Some 0)) = Inr 1"
  "random_choice example_rng (Suc (Suc 0)) (candidates 4 (Some 0)) = Inr 3"
  "random_choice example_rng 3 (candidates 4 None) = Inr 3"
  "random_choice example_rng 4 (candidates 4 (Some 2)) = Inr 0"
  "random_choice example_rng 5 (candidates 4 (Some (Suc 0))) = Inr 3"
  by (simp_all add: random_choice_def example_candidates example_rng_def)

lemma example_inverses:
  "inverse_action_idx example_env 0 = 1" "inverse_action_idx example_env (Suc 0) = 0"
  "inverse_action_idx example_env 3 = 2"
  by (simp_all add: example_env_def)

lemma upt_3: "[0..<3] = [0, 1, 2]" by (simp add: upt_rec)

lemma upt_2: "[0..<2] = [0, 1]" by (simp add: upt_rec)

lemma example_scramble_steps:
  "scramble_steps example_env example_rng [0..<3] (solved_cube example_env, None, 0)
     = Inr ([1, 1, 3], Some 2, 3)"
  by (simp add: upt_3 example_choices example_inverses example_env_simps)

lemma example_gen_steps:
  "gen_steps example_env example_rng [0..<3] (solved_cube example_env, None, X, W, 0)
     = Inr ([1, 1, 3], Some 2, X @ [[1], [1, 1], [1, 1, 3]], W @ [1, 1 / 2, 1 / 3], 3)"
  "gen_steps example_env example_rng [0..<3] (solved_cube example_env, None, X, W, 3)
     = Inr ([3, 0, 3], Some 2, X @ [[3], [3, 0], [3, 0, 3]], W @ [1, 1 / 2, 1 / 3], 6)"
  by (simp_all add: upt_3 example_choices example_inverses example_env_simps Let_def)

lemma example_gen_sequences:
  "gen_sequences example_env example_rng 3 [0..<2] ([], [], 0)
     = Inr ([[1], [1, 1], [1, 1, 3], [3], [3, 0], [3, 0, 3]],
            [1, 1 / 2, 1 / 3, 1, 1 / 2, 1 / 3], 6)"
  by (simp add: upt_2 example_gen_steps)

lemma example_generate_dataset:
  "generate_dataset example_env example_rng example_permutation True 3 2
     = Inr ([[3, 0], [1, 1, 3], [1], [3, 0, 3], [1, 1], [3]],
            [1 / 2, 1 / 3, 1, 1 / 3, 1 / 2, 1])"
  "generate_dataset example_env example_rng example_permutation False 3 2
     = Inr ([[1], [1, 1], [1, 1, 3], [3], [3, 0], [3, 0, 3]],
            [1, 1 / 2, 1 / 3, 1, 1 / 2, 1 / 3])"
  by (simp_all add: generate_dataset_def example_gen_sequences np_take_def example_permutation_def)

lemma example_permutation_ok: "sort (example_permutation (2 * 3)) = [0..<2 * 3]"
  by (simp add: example_permutation_def upt_rec)

text \<open>
  C4.  For a cube with at least two moves, \<open>k \<ge> 1\<close> and \<open>l \<ge> 1\<close>, dataset generation returns
  two arrays of length \<open>l * k\<close>.  The sample at position \<open>p\<close> of both arrays is the one
  recorded at step \<open>q mod k\<close> of sequence \<open>q div k\<close>, where \<open>q\<close> is \<open>p\<close> itself, or entry \<open>p\<close> of
  the permutation when the dataset is shuffled: its state is the state recorded at that step
  of that sequence and its weight is \<open>1 / (step + 1)\<close>.  Every weight is greater than 0 and
  at most 1.
\<close>

theorem generate_dataset_spec:
  assumes n: "2 \<le> num_actions env" and k: "1 \<le> k" and l: "1 \<le> l"
    and perm: "shuffle' \<longrightarrow> sort (np_random_permutation (l * k)) = [0..<l * k]"
  shows "\<exists>X weights.
           generate_dataset env rng np_random_permutation shuffle' k l = Inr (X, weights)
           \<and> length X = l * k \<and> length weights = l * k
           \<and> (\<forall>p < l * k.
                 X ! p = sequence_states env rng k
                           (source_index shuffle' (np_random_permutation (l * k)) p div k * k)
                         ! (source_index shuffle' (np_random_permutation (l * k)) p mod k)
                 \<and> weights ! p
                     = 1 / (real (source_index shuffle' (np_random_permutation (l * k)) p mod k) + 1))
           \<and> (\<forall>w \<in> set weights. 0 < w \<and> w \<le> 1)"
proof -
  let ?w = "\<lambda>shuffle. 1 / (real shuffle + 1)"
  let ?XS = "map (\<lambda>i. sequence_states env rng k (i * k)) [0..<l]"
  let ?WS = "map (\<lambda>i. map ?w [0..<k]) [0..<l]"
  let ?Xu = "concat ?XS" and ?Wu = "concat ?WS"
  let ?ri = "np_random_permutation (l * k)"
  let ?src = "source_index shuffle' ?ri"
  have gs: "gen_sequences env rng k [0..<l] ([], [], 0) = Inr (?Xu, ?Wu, l * k)"
    by (simp add: gen_sequences_run[OF n])
  have uX: "\<forall>xs \<in> set ?XS. length xs = k" by simp
  have uW: "\<forall>xs \<in> set ?WS. length xs = k" by simp
  have lXu: "length ?Xu = l * k" using length_concat_uniform[OF uX] by simp
  have lWu: "length ?Wu = l * k" using length_concat_uniform[OF uW] by simp
  have nX: "?Xu ! q = sequence_states env rng k (q div k * k) ! (q mod k)" if q: "q < l * k" for q
  proof -
    from q have i: "q div k < l" by (rule less_mult_imp_div_less)
    have "?Xu ! q = ?XS ! (q div k) ! (q mod k)"
      using nth_concat_div_mod[OF uX, of q] q by simp
    with i show ?thesis by simp
  qed
  have nW: "?Wu ! q = ?w (q mod k)" if q: "q < l * k" for q
  proof -
    from q have i: "q div k < l" by (rule less_mult_imp_div_less)
    from q have "0 < k" by (cases k) simp_all
    then have s: "q mod k < k" by simp
    have "?Wu ! q = ?WS ! (q div k) ! (q mod k)"
      using nth_concat_div_mod[OF uW, of q] q by simp
    with i s show ?thesis by simp
  qed
  have range: "0 < ?w s \<and> ?w s \<le> 1" for s by simp
  show ?thesis
  proof (cases shuffle')
    case False
    then have res: "generate_dataset env rng np_random_permutation shuffle' k l = Inr (?Xu, ?Wu)"
      by (simp add: generate_dataset_def gs)
    have src: "?src p = p" for p using False by (simp add: source_index_def)
    have a: "\<forall>p < l * k. ?Xu ! p = sequence_states env rng k (?src p div k * k) ! (?src p mod k)
                         \<and> ?Wu ! p = ?w (?src p mod k)"
      using nX nW by (simp add: src)
    have b: "\<forall>w \<in> set ?Wu. 0 < w \<and> w \<le> 1"
    proof
      fix w assume "w \<in> set ?Wu"
      then obtain q where "q < length ?Wu" "w = ?Wu ! q" unfolding in_set_conv_nth by blast
      with lWu nW[of q] range[of "q mod k"] show "0 < w \<and> w \<le> 1" by simp
    qed
    from res lXu lWu a b show ?thesis by blast
  next
    case True
    from perm True have srt: "sort ?ri = [0..<l * k]" by simp
    have "set ?ri = set (sort ?ri)" by simp
    with srt have sri: "set ?ri = {0..<l * k}" by simp
    have "length ?ri = length (sort ?ri)" by simp
    with srt have lri: "length ?ri = l * k" by simp
    have inb: "?ri ! p < l * k" if "p < l * k" for p
      using that sri lri nth_mem[of p ?ri] by auto
    have tX: "np_take ?Xu ?ri = Inr (map (\<lambda>i. ?Xu ! i) ?ri)"
      using sri lXu by (simp add: np_take_def)
    have tW: "np_take ?Wu ?ri = Inr (map (\<lambda>i. ?Wu ! i) ?ri)"
      using sri lWu by (simp add: np_take_def)
    let ?X = "map (\<lambda>i. ?Xu ! i) ?ri" and ?W = "map (\<lambda>i. ?Wu ! i) ?ri"
    have nz: "l * k \<noteq> 0" using k l by simp
    have res: "generate_dataset env rng np_random_permutation shuffle' k l = Inr (?X, ?W)"
      using True nz by (simp add: generate_dataset_def gs tX tW Let_def)
    have src: "?src p = ?ri ! p" for p using True by (simp add: source_index_def)
    have a: "\<forall>p < l * k. ?X ! p = sequence_states env rng k (?src p div k * k) ! (?src p mod k)
                         \<and> ?W ! p = ?w (?src p mod k)"
    proof (intro allI impI)
      fix p assume p: "p < l * k"
      from inb[OF p] have q: "?ri ! p < l * k" .
      from p lri have "?X ! p = ?Xu ! (?ri ! p)" "?W ! p = ?Wu ! (?ri ! p)" by simp_all
      with nX[OF q] nW[OF q] show "?X ! p = sequence_states env rng k (?src p div k * k) ! (?src p mod k)
                         \<and> ?W ! p = ?w (?src p mod k)"
        by (simp add: src)
    qed
    have b: "\<forall>w \<in> set ?W. 0 < w \<and> w \<le> 1"
    proof
      fix w assume "w \<in> set ?W"
      then obtain q where "q \<in> set ?ri" "w = ?Wu ! q" by auto
      with sri nW[of q] range[of "q mod k"] show "0 < w \<and> w \<le> 1" by simp
    qed
    have "length ?X = l * k" "length ?W = l * k" using lri by simp_all
    with res a b show ?thesis by blast
  qed
qed

theorem generate_dataset_spec_witness:
  "2 \<le> num_actions example_env \<and> (1::nat) \<le> 3 \<and> (1::nat) \<le> 2
   \<and> sort (example_permutation (2 * 3)) = [0..<2 * 3]
   \<and> (\<exists>X weights.
          generate_dataset example_env example_rng example_permutation True 3 2 = Inr (X, weights)
          \<and> length X = 2 * 3 \<and> length weights = 2 * 3
          \<and> weights ! 0
              = 1 / (real (source_index True (example_permutation (2 * 3)) 0 mod 3) + 1))
   \<and> generate_dataset example_env example_rng example_permutation True 3 2
       = Inr ([[3, 0], [1, 1, 3], [1], [3, 0, 3], [1, 1], [3]],
              [1 / 2, 1 / 3, 1, 1 / 3, 1 / 2, 1])"
proof -
  have a: "2 \<le> num_actions example_env" by (simp add: example_env_def)
  have b: "(1::nat) \<le> 3" and c: "(1::nat) \<le> 2" by simp_all
  have d: "True \<longrightarrow> sort (example_permutation (2 * 3)) = [0..<2 * 3]"
    using example_permutation_ok by simp
  from generate_dataset_spec[where env = example_env and k = 3 and l = 2 and shuffle' = True
      and np_random_permutation = example_permutation and rng = example_rng, OF a b c d]
  obtain X weights where
    r: "generate_dataset example_env example_rng example_permutation True 3 2 = Inr (X, weights)"
      "length X = 2 * 3" "length weights = 2 * 3"
    and nth: "\<forall>p < 2 * 3.
               X ! p = sequence_states example_env example_rng 3
                         (source_index True (example_permutation (2 * 3)) p div 3 * 3)
                       ! (source_index True (example_permutation (2 * 3)) p mod 3)
               \<and> weights ! p
                   = 1 / (real (source_index True (example_permutation (2 * 3)) p mod 3) + 1)"
    by blast
  from nth have "weights ! 0
              = 1 / (real (source_index True (example_permutation (2 * 3)) 0 mod 3) + 1)"
    by simp
  with r a b c example_permutation_ok example_generate_dataset(1) show ?thesis by blast
qed



end
